theory Spec2Isabelle
  imports Complex_Main
begin

section \<open>JavaScript values and arrays\<close>

text \<open>
  The tree code stores decimal strings in arrays and reads them back with \<^verbatim>\<open>a[i]\<close>,
  which yields \<^verbatim>\<open>undefined\<close> outside the array, and with \<^verbatim>\<open>x ?? y\<close>, which replaces
  an undefined \<^verbatim>\<open>x\<close> by \<^verbatim>\<open>y\<close>. A value of the program is therefore either undefined
  (\<open>None\<close>) or a string (\<open>Some s\<close>); the type of strings is left open as \<open>'a\<close>.
  Numbers that count levels and positions are integers; arrays are lists, and the
  engine's limits on memory and on the length of an array are not represented.
\<close>

datatype error = RangeError | TypeError | LeafNotFound

type_synonym 'a jsval = "'a option"

definition nth_js :: "'a jsval list \<Rightarrow> int \<Rightarrow> 'a jsval" where
  "nth_js xs i = (if 0 \<le> i \<and> i < int (length xs) then xs ! nat i else None)"

definition nullish :: "'a jsval \<Rightarrow> 'a jsval \<Rightarrow> 'a jsval" where
  "nullish a b = (case a of None \<Rightarrow> b | Some v \<Rightarrow> Some v)"

fun indexOf_from :: "'b list \<Rightarrow> 'b \<Rightarrow> int \<Rightarrow> int" where
  "indexOf_from [] v i = - 1"
| "indexOf_from (x # xs) v i = (if x = v then i else indexOf_from xs v (i + 1))"

definition indexOf :: "'b list \<Rightarrow> 'b \<Rightarrow> int" where
  "indexOf xs v = indexOf_from xs v 0"

section \<open>The Merkle tree class\<close>

text \<open>
  \<open>poseidon\<close> stands for the whole of \<^verbatim>\<open>field.toObject(poseidon([l, r])).toString()\<close>:
  a function of the ordered pair that returns a string. \<open>tree\<close> is the outer array as
  the object it is: a map from keys to levels.
\<close>

record 'a MerkleTree =
  depth :: int
  poseidon :: "'a jsval \<Rightarrow> 'a jsval \<Rightarrow> 'a"
  emptyLeaf :: 'a
  emptyBranchLevels :: "'a jsval list"
  tree :: "int \<rightharpoonup> 'a jsval list"

record 'a MerkleProof =
  leaf :: 'a
  pathElements :: "'a jsval list"
  leafIndex :: int

definition calculateNodeHash ::
  "('a jsval \<Rightarrow> 'a jsval \<Rightarrow> 'a) \<Rightarrow> 'a jsval \<Rightarrow> 'a jsval \<Rightarrow> 'a" where
  "calculateNodeHash H left right = H left right"

function emptyBranch_loop ::
  "('a jsval \<Rightarrow> 'a jsval \<Rightarrow> 'a) \<Rightarrow> int \<Rightarrow> int \<Rightarrow> 'a jsval list \<Rightarrow> 'a jsval list" where
  "emptyBranch_loop H d i levels =
     (if i \<le> d
      then emptyBranch_loop H d (i + 1)
             (levels @ [Some (calculateNodeHash H (nth_js levels (i - 1)) (nth_js levels (i - 1)))])
      else levels)"
  by pat_completeness auto
termination
  by (relation "measure (\<lambda>(H, d, i, levels). nat (d + 1 - i))") auto

declare emptyBranch_loop.simps [simp del]

definition calculateEmptyBranchHashes ::
  "('a jsval \<Rightarrow> 'a jsval \<Rightarrow> 'a) \<Rightarrow> 'a \<Rightarrow> int \<Rightarrow> 'a jsval list" where
  "calculateEmptyBranchHashes H e d = emptyBranch_loop H d 1 [Some e]"

function init_loop :: "int \<Rightarrow> int \<Rightarrow> (int \<rightharpoonup> 'a jsval list) \<Rightarrow> (int \<rightharpoonup> 'a jsval list)" where
  "init_loop d i tr = (if i < d then init_loop d (i + 1) (tr(i \<mapsto> [])) else tr)"
  by pat_completeness auto
termination
  by (relation "measure (\<lambda>(d, i, tr). nat (d - i))") auto

declare init_loop.simps [simp del]

text \<open>
  The constructor. \<^verbatim>\<open>Array(depth + 1)\<close> throws a RangeError for a negative length; the
  new array has no element yet. \<open>e\<close> is the empty-leaf constant, which the source
  computes from a fixed string with functions that are not part of the class.
\<close>

definition MerkleTree_new ::
  "int \<Rightarrow> ('a jsval \<Rightarrow> 'a jsval \<Rightarrow> 'a) \<Rightarrow> 'a \<Rightarrow> error + 'a MerkleTree" where
  "MerkleTree_new d H e =
     (let ebl = calculateEmptyBranchHashes H e d in
      if d + 1 < 0 then Inl RangeError
      else Inr \<lparr> depth = d, poseidon = H, emptyLeaf = e, emptyBranchLevels = ebl,
                 tree = (init_loop d 0 Map.empty)(d \<mapsto> [nth_js ebl d]) \<rparr>)"

definition root :: "'a MerkleTree \<Rightarrow> error + 'a jsval" where
  "root t = (case tree t (depth t) of None \<Rightarrow> Inl TypeError | Some lvl \<Rightarrow> Inr (nth_js lvl 0))"

function parents_loop ::
  "('a jsval \<Rightarrow> 'a jsval \<Rightarrow> 'a) \<Rightarrow> 'a jsval list \<Rightarrow> 'a jsval \<Rightarrow> int \<Rightarrow> 'a jsval list \<Rightarrow> 'a jsval list" where
  "parents_loop H lvl eb pos acc =
     (if pos < int (length lvl)
      then parents_loop H lvl eb (pos + 2)
             (acc @ [Some (calculateNodeHash H (nth_js lvl pos) (nullish (nth_js lvl (pos + 1)) eb))])
      else acc)"
  by pat_completeness auto
termination
  by (relation "measure (\<lambda>(H, lvl, eb, pos, acc). nat (int (length lvl) - pos))") auto

declare parents_loop.simps [simp del]

function rebuild_loop ::
  "('a jsval \<Rightarrow> 'a jsval \<Rightarrow> 'a) \<Rightarrow> int \<Rightarrow> 'a jsval list \<Rightarrow> int \<Rightarrow> (int \<rightharpoonup> 'a jsval list)
     \<Rightarrow> error + (int \<rightharpoonup> 'a jsval list)" where
  "rebuild_loop H d ebl level tr =
     (if level < d
      then (case tr level of
              None \<Rightarrow> Inl TypeError
            | Some lvl \<Rightarrow>
                rebuild_loop H d ebl (level + 1)
                  (tr(level + 1 \<mapsto> parents_loop H lvl (nth_js ebl level) 0 [])))
      else Inr tr)"
  by pat_completeness auto
termination
  by (relation "measure (\<lambda>(H, d, ebl, level, tr). nat (d - level))") auto

declare rebuild_loop.simps [simp del]

definition insertLeaves :: "'a MerkleTree \<Rightarrow> 'a list \<Rightarrow> error + 'a MerkleTree" where
  "insertLeaves t leaves =
     (if length leaves = 0 then Inr t
      else case tree t 0 of
             None \<Rightarrow> Inl TypeError
           | Some lvl0 \<Rightarrow>
               (case rebuild_loop (poseidon t) (depth t) (emptyBranchLevels t) 0
                       ((tree t)(0 \<mapsto> lvl0 @ map Some leaves)) of
                  Inl err \<Rightarrow> Inl err
                | Inr tr \<Rightarrow> Inr (t\<lparr>tree := tr\<rparr>)))"

function path_loop ::
  "(int \<rightharpoonup> 'a jsval list) \<Rightarrow> 'a jsval list \<Rightarrow> int \<Rightarrow> int \<Rightarrow> int \<Rightarrow> 'a jsval list
     \<Rightarrow> error + 'a jsval list" where
  "path_loop tr ebl d level curIndex path =
     (if level < d
      then (case tr level of
              None \<Rightarrow> Inl TypeError
            | Some lvl \<Rightarrow>
                path_loop tr ebl d (level + 1) (curIndex div 2)
                  (path @ [if curIndex mod 2 = 0
                           then nullish (nth_js lvl (curIndex + 1)) (nth_js ebl level)
                           else nth_js lvl (curIndex - 1)]))
      else Inr path)"
  by pat_completeness auto
termination
  by (relation "measure (\<lambda>(tr, ebl, d, level, curIndex, path). nat (d - level))") auto

declare path_loop.simps [simp del]

definition createProof :: "'a MerkleTree \<Rightarrow> 'a \<Rightarrow> error + 'a MerkleProof" where
  "createProof t lf =
     (case tree t 0 of
        None \<Rightarrow> Inl TypeError
      | Some lvl0 \<Rightarrow>
          (let idx = indexOf lvl0 (Some lf) in
           if idx = - 1 then Inl LeafNotFound
           else case path_loop (tree t) (emptyBranchLevels t) (depth t) 0 idx [] of
                  Inl err \<Rightarrow> Inl err
                | Inr path \<Rightarrow> Inr \<lparr> leaf = lf, pathElements = path, leafIndex = idx \<rparr>))"

text \<open>
  \<^verbatim>\<open>(BigInt(leafIndex) >> BigInt(i)) % 2n\<close>: the shift rounds towards minus infinity, the
  remainder takes the sign of the dividend.
\<close>

definition bigint_rem :: "int \<Rightarrow> int \<Rightarrow> int" where
  "bigint_rem a b = sgn a * (\<bar>a\<bar> mod \<bar>b\<bar>)"

definition isNodeOnRight :: "int \<Rightarrow> int \<Rightarrow> bool" where
  "isNodeOnRight idx i = (bigint_rem (idx div 2 ^ nat i) 2 = 1)"

function hashUp_loop ::
  "('a jsval \<Rightarrow> 'a jsval \<Rightarrow> 'a) \<Rightarrow> 'a MerkleProof \<Rightarrow> int \<Rightarrow> 'a \<Rightarrow> 'a" where
  "hashUp_loop H proof i currentNode =
     (if i < int (length (pathElements proof))
      then hashUp_loop H proof (i + 1)
             (if isNodeOnRight (leafIndex proof) i
              then calculateNodeHash H (nth_js (pathElements proof) i) (Some currentNode)
              else calculateNodeHash H (Some currentNode) (nth_js (pathElements proof) i))
      else currentNode)"
  by pat_completeness auto
termination
  by (relation "measure (\<lambda>(H, proof, i, currentNode). nat (int (length (pathElements proof)) - i))") auto

declare hashUp_loop.simps [simp del]

definition getMerkleRootFromProof ::
  "'a MerkleProof \<Rightarrow> ('a jsval \<Rightarrow> 'a jsval \<Rightarrow> 'a) \<Rightarrow> 'a \<Rightarrow> error + 'a" where
  "getMerkleRootFromProof proof H e =
     (case MerkleTree_new 0 H e of
        Inl err \<Rightarrow> Inl err
      | Inr dummyTree \<Rightarrow> Inr (hashUp_loop (poseidon dummyTree) proof 0 (leaf proof)))"

section \<open>The snap's request handler: importing a zkCert\<close>

text \<open>
  The case \<^verbatim>\<open>RpcMethods.ImportZkCert\<close> of \<^verbatim>\<open>processRpcRequest\<close>. The handler works on the
  state that \<^verbatim>\<open>getState\<close> returned and persists a state only by calling \<^verbatim>\<open>saveState\<close>;
  the model returns the outcome of the request together with the state handed to
  \<^verbatim>\<open>saveState\<close>, if it was called. The answer of the user to the confirmation dialog is an
  input: \<open>None\<close> when the \<^verbatim>\<open>snap_dialog\<close> call itself fails. Of a holder and of a zkCert
  only the fields that the case reads are kept; \<open>certData\<close> stands for all other fields of
  a zkCert. Both have a field \<^verbatim>\<open>holderCommitment\<close>; the one of a zkCert is
  \<open>certHolderCommitment\<close> here.
\<close>

record HolderData =
  holderCommitment :: string

record ZkCertRegistered =
  certHolderCommitment :: string
  leafHash :: string
  certData :: string

record StorageState =
  holders :: "HolderData list"
  zkCerts :: "ZkCertRegistered list"

record ImportRequestParams =
  zkCert :: ZkCertRegistered
  listZkCerts :: "bool option"

datatype RpcError = HolderMissing | RejectedConfirm | DialogFailed

datatype RpcResponse =
    ZkCertAlreadyImported
  | ZkCertImported
  | ZkCertStorageOverview "ZkCertRegistered list"

definition processRpcRequest_ImportZkCert ::
  "StorageState \<Rightarrow> ImportRequestParams \<Rightarrow> bool option
     \<Rightarrow> (RpcError + RpcResponse) \<times> StorageState option" where
  "processRpcRequest_ImportZkCert state importParams dialog =
     (case find (\<lambda>candidate. holderCommitment candidate = certHolderCommitment (zkCert importParams))
                (holders state) of
        None \<Rightarrow> (Inl HolderMissing, None)
      | Some searchedHolder \<Rightarrow>
          (let listZkCertsFlag = (listZkCerts importParams = Some True) in
           case find (\<lambda>candidate. leafHash candidate = leafHash (zkCert importParams))
                     (zkCerts state) of
             Some searchedZkCert \<Rightarrow> (Inr ZkCertAlreadyImported, None)
           | None \<Rightarrow>
               (case dialog of
                  None \<Rightarrow> (Inl DialogFailed, None)
                | Some confirm \<Rightarrow>
                    if \<not> confirm then (Inl RejectedConfirm, None)
                    else (let state' = state\<lparr>zkCerts := zkCerts state @ [zkCert importParams]\<rparr> in
                          (if listZkCertsFlag then Inr (ZkCertStorageOverview (zkCerts state'))
                           else Inr ZkCertImported,
                           Some state')))))"

text \<open>A stored zkCert, a second one with the same leaf hash for another holder, and a holder.\<close>

definition certA :: ZkCertRegistered where
  "certA = \<lparr> certHolderCommitment = ''h1'', leafHash = ''42'', certData = ''a'' \<rparr>"

definition certB :: ZkCertRegistered where
  "certB = \<lparr> certHolderCommitment = ''h2'', leafHash = ''42'', certData = ''b'' \<rparr>"

definition holderA :: HolderData where
  "holderA = \<lparr> holderCommitment = ''h1'' \<rparr>"

section \<open>The time check of the verifying contract\<close>

text \<open>
  Modelled from the spec: the time check of the Verification-Predicate Cross-Checker. The
  contract that performs it (\<^verbatim>\<open>verifyProof\<close> of the verifier wrappers) is not among the
  sources; only its tests are. The specification: the check passes when
  \<open>|T - publicTime| \<le> tolerance\<close>, with a tolerance of 30 minutes, and signals
  \<open>TimeOutOfBounds\<close> otherwise. Times are block timestamps, in seconds.
\<close>

datatype CheckError = TimeOutOfBounds

text \<open>Modelled from the spec: the tolerance of the protocol, 30 minutes.\<close>

definition timeDifferenceTolerance :: nat where
  "timeDifferenceTolerance = 30 * 60"

text \<open>Modelled from the spec: the check \<open>|T - publicTime| \<le> tolerance\<close> and its error.\<close>

definition timeCheck :: "nat \<Rightarrow> nat \<Rightarrow> CheckError + unit" where
  "timeCheck T publicTime =
     (let timeDiff = (if T > publicTime then T - publicTime else publicTime - T) in
      if timeDiff \<le> timeDifferenceTolerance then Inr () else Inl TimeOutOfBounds)"

section \<open>Shamir secret reconstruction\<close>

text \<open>
  Modelled from the spec: \<^verbatim>\<open>reconstructShamirSecret\<close> (the library file that defines it
  is not among the sources; only its tests are) and the shares it is given (they come out
  of a circuit). The specification: the secret is
  \<open>\<Sum>\<^sub>i value\<^sub>i * \<Prod>\<^sub>j\<^sub>\<noteq>\<^sub>i (0 - index\<^sub>j) / (index\<^sub>i - index\<^sub>j)\<close> with all arithmetic in the field,
  and the function fails only on duplicate indices, where the division is by zero. The
  shares of a secret with threshold \<open>k\<close> are the values, at the indices, of a polynomial
  of degree \<open>k - 1\<close> whose value at \<open>0\<close> is the secret; \<open>cs\<close> lists its coefficients, the
  secret first. The field is any type of the class \<open>field\<close>; the index of a share is a
  number, taken into the field by \<open>of_nat\<close>.
\<close>

text \<open>Modelled from the spec: the polynomial behind the shares, by its coefficients.\<close>

fun evalPoly :: "'a::field list \<Rightarrow> 'a \<Rightarrow> 'a" where
  "evalPoly [] x = 0"
| "evalPoly (c # cs) x = c + x * evalPoly cs x"

text \<open>Modelled from the spec: the share with index \<open>i\<close>, a pair of index and value.\<close>

definition shamirShare :: "'a::field list \<Rightarrow> nat \<Rightarrow> nat \<times> 'a" where
  "shamirShare cs i = (i, evalPoly cs (of_nat i))"

datatype ShamirError = MalformedShares

text \<open>Modelled from the spec: the factor \<open>\<Prod>\<^sub>j\<^sub>\<noteq>\<^sub>i (0 - index\<^sub>j) / (index\<^sub>i - index\<^sub>j)\<close> of share \<open>i\<close>.\<close>

definition lagrangeBasisAtZero :: "'a::field list \<Rightarrow> nat \<Rightarrow> 'a" where
  "lagrangeBasisAtZero xs i =
     prod_list (map (\<lambda>j. (0 - xs ! j) / (xs ! i - xs ! j)) (filter (\<lambda>j. j \<noteq> i) [0..<length xs]))"

text \<open>Modelled from the spec: the reconstruction; duplicate indices are the one failure.\<close>

definition reconstructSecret :: "nat \<Rightarrow> (nat \<times> 'a::field) list \<Rightarrow> ShamirError + 'a" where
  "reconstructSecret k shares =
     (let xs = map (\<lambda>s. of_nat (fst s)) shares; ys = map snd shares in
      if \<not> distinct xs then Inl MalformedShares
      else Inr (sum_list (map (\<lambda>i. ys ! i * lagrangeBasisAtZero xs i) [0..<length shares])))"

text \<open>
  The Lagrange basis polynomial of the node \<open>a\<close> among the nodes \<open>xs\<close>, at any point \<open>z\<close>;
  \<open>lagrangeBasisAtZero\<close> is its value at \<open>0\<close>.
\<close>

definition lagrangeBasis :: "'a::field list \<Rightarrow> 'a \<Rightarrow> 'a \<Rightarrow> 'a" where
  "lagrangeBasis xs a z = prod_list (map (\<lambda>x. (z - x) / (a - x)) (filter (\<lambda>x. x \<noteq> a) xs))"

section \<open>Auxiliary definitions for the statements\<close>

text \<open>
  The recurrence of the specification for the hash of an empty subtree of height \<open>n\<close>:
  the empty leaf at height \<open>0\<close>, and above it the hash of the value below with itself.
\<close>

fun emptyBranchSpec :: "('a jsval \<Rightarrow> 'a jsval \<Rightarrow> 'a) \<Rightarrow> 'a \<Rightarrow> nat \<Rightarrow> 'a" where
  "emptyBranchSpec H e 0 = e"
| "emptyBranchSpec H e (Suc n) = H (Some (emptyBranchSpec H e n)) (Some (emptyBranchSpec H e n))"

text \<open>
  The levels that the rebuilding loop of \<open>insertLeaves\<close> stores above a level \<open>lvl\<close> at
  height \<open>k\<close>: the \<open>n\<close>-th is the result of running the inner loop \<open>n\<close> times.
\<close>

fun levelsAbove ::
  "('a jsval \<Rightarrow> 'a jsval \<Rightarrow> 'a) \<Rightarrow> 'a jsval list \<Rightarrow> int \<Rightarrow> 'a jsval list \<Rightarrow> nat \<Rightarrow> 'a jsval list" where
  "levelsAbove H ebl k lvl 0 = lvl"
| "levelsAbove H ebl k lvl (Suc n) =
     parents_loop H (levelsAbove H ebl k lvl n) (nth_js ebl (k + int n)) 0 []"

text \<open>
  The sibling of the node at position \<open>i\<close> of level \<open>l\<close>, as \<open>createProof\<close> reads it: the
  right neighbour of an even position, replaced by the empty-branch hash of the level
  when it is undefined, and the left neighbour of an odd position.
\<close>

definition siblingAt :: "(int \<rightharpoonup> 'a jsval list) \<Rightarrow> 'a jsval list \<Rightarrow> int \<Rightarrow> int \<Rightarrow> 'a jsval" where
  "siblingAt tr ebl l i =
     (case tr l of
        None \<Rightarrow> None
      | Some lvl \<Rightarrow> if i mod 2 = 0 then nullish (nth_js lvl (i + 1)) (nth_js ebl l)
                    else nth_js lvl (i - 1))"

text \<open>
  Verification as the specification words it: a fold over the levels
  \<open>0, \<dots>, len(pathElements) - 1\<close>, where bit \<open>i\<close> of the position of the leaf decides
  whether the current node is the right or the left argument of the hash. A position is a
  natural number.
\<close>

definition verifyStep ::
  "('a jsval \<Rightarrow> 'a jsval \<Rightarrow> 'a) \<Rightarrow> 'a jsval list \<Rightarrow> nat \<Rightarrow> 'a \<Rightarrow> nat \<Rightarrow> 'a" where
  "verifyStep H path idx cur i =
     (if bit idx i then calculateNodeHash H (path ! i) (Some cur)
      else calculateNodeHash H (Some cur) (path ! i))"

definition verifyProof_spec ::
  "('a jsval \<Rightarrow> 'a jsval \<Rightarrow> 'a) \<Rightarrow> 'a \<Rightarrow> 'a jsval list \<Rightarrow> nat \<Rightarrow> 'a" where
  "verifyProof_spec H lf path idx = foldl (verifyStep H path idx) lf [0..<length path]"

text \<open>A sequence of calls of \<open>insertLeaves\<close>, one for each batch of leaves, stopping at an error.\<close>

fun insertMany :: "'a MerkleTree \<Rightarrow> 'a list list \<Rightarrow> error + 'a MerkleTree" where
  "insertMany t [] = Inr t"
| "insertMany t (b # bs) =
     (case insertLeaves t b of Inl err \<Rightarrow> Inl err | Inr t' \<Rightarrow> insertMany t' bs)"

text \<open>A small hash on numbers, not commutative, for running the definitions on concrete inputs.\<close>

definition toyHash :: "nat jsval \<Rightarrow> nat jsval \<Rightarrow> nat" where
  "toyHash a b = 3 * (case a of None \<Rightarrow> 0 | Some x \<Rightarrow> x) + (case b of None \<Rightarrow> 0 | Some y \<Rightarrow> y) + 1"

text \<open>The tree that \<open>MerkleTree_new 2 toyHash 5\<close> returns, written out.\<close>

definition toyTree :: "nat MerkleTree" where
  "toyTree = \<lparr> depth = 2, poseidon = toyHash, emptyLeaf = 5,
               emptyBranchLevels = [Some 5, Some 21, Some 85],
               tree = [0 \<mapsto> [], 1 \<mapsto> [], 2 \<mapsto> [Some 85]] \<rparr>"

text \<open>The tree that \<open>insertLeaves toyTree [1, 2, 3]\<close> returns, written out.\<close>

definition toyTree3 :: "nat MerkleTree" where
  "toyTree3 = toyTree\<lparr>tree := [0 \<mapsto> [Some 1, Some 2, Some 3], 1 \<mapsto> [Some 6, Some 15],
                               2 \<mapsto> [Some 34]]\<rparr>"

text \<open>
  The tree that \<open>MerkleTree_new 0 toyHash 5\<close> returns, and the tree that
  \<open>insertLeaves\<close> makes of it for the single leaf \<open>1\<close>.
\<close>

definition toyTree0 :: "nat MerkleTree" where
  "toyTree0 = \<lparr> depth = 0, poseidon = toyHash, emptyLeaf = 5,
                emptyBranchLevels = [Some 5], tree = [0 \<mapsto> [Some 5]] \<rparr>"

definition toyTree0a :: "nat MerkleTree" where
  "toyTree0a = toyTree0\<lparr>tree := [0 \<mapsto> [Some 5, Some 1]]\<rparr>"

section \<open>Construction\<close>

lemma nth_js_map_upt:
  "nth_js (map f [0..<n]) i = (if 0 \<le> i \<and> i < int n then f (nat i) else None)"
  by (auto simp add: nth_js_def)

lemma emptyBranch_loop_spec:
  "1 \<le> i \<Longrightarrow> levels = map (\<lambda>k. Some (emptyBranchSpec H e k)) [0..<nat i] \<Longrightarrow>
   emptyBranch_loop H d i levels = map (\<lambda>k. Some (emptyBranchSpec H e k)) [0..<nat (max i (d + 1))]"
proof (induction H d i levels rule: emptyBranch_loop.induct)
  case (1 H d i levels)
  show ?case
  proof (cases "i \<le> d")
    case True
    have step: "levels @ [Some (calculateNodeHash H (nth_js levels (i - 1)) (nth_js levels (i - 1)))]
                = map (\<lambda>k. Some (emptyBranchSpec H e k)) [0..<nat (i + 1)]"
    proof -
      from "1.prems" obtain m where m: "nat i = Suc m" "nat (i - 1) = m" "i - 1 = int m"
        by (cases "nat i") auto
      have "nth_js levels (i - 1) = Some (emptyBranchSpec H e m)"
        unfolding "1.prems"(2) nth_js_map_upt using m by simp
      moreover have "nat (i + 1) = Suc (nat i)" using "1.prems" by simp
      ultimately show ?thesis using "1.prems" m
        by (simp add: calculateNodeHash_def)
    qed
    have "emptyBranch_loop H d i levels = emptyBranch_loop H d (i + 1)
            (levels @ [Some (calculateNodeHash H (nth_js levels (i - 1)) (nth_js levels (i - 1)))])"
      using True by (subst emptyBranch_loop.simps) simp
    also have "\<dots> = map (\<lambda>k. Some (emptyBranchSpec H e k)) [0..<nat (max (i + 1) (d + 1))]"
      using "1.IH" [OF True _ step] "1.prems" by simp
    also have "max (i + 1) (d + 1) = max i (d + 1)" using True by simp
    finally show ?thesis .
  next
    case False
    then have "max i (d + 1) = i" by simp
    with False show ?thesis using "1.prems" by (subst emptyBranch_loop.simps) simp
  qed
qed

lemma calculateEmptyBranchHashes_spec:
  "calculateEmptyBranchHashes H e d = map (\<lambda>k. Some (emptyBranchSpec H e k)) [0..<nat (max 1 (d + 1))]"
  unfolding calculateEmptyBranchHashes_def
  by (rule emptyBranch_loop_spec) (simp_all add: upt_rec)

lemma init_loop_spec:
  "init_loop d i tr k = (if i \<le> k \<and> k < d then Some [] else tr k)"
proof (induction d i tr rule: init_loop.induct)
  case (1 d i tr)
  show ?case
  proof (cases "i < d")
    case True
    have "init_loop d i tr k = init_loop d (i + 1) (tr(i \<mapsto> [])) k"
      using True by (subst init_loop.simps) simp
    also have "\<dots> = (if i + 1 \<le> k \<and> k < d then Some [] else (tr(i \<mapsto> [])) k)"
      by (rule "1.IH" [OF True])
    also have "\<dots> = (if i \<le> k \<and> k < d then Some [] else tr k)"
      using True by auto
    finally show ?thesis .
  next
    case False
    then show ?thesis by (subst init_loop.simps) auto
  qed
qed

lemma MerkleTree_new_ok:
  "- 1 \<le> d \<Longrightarrow> MerkleTree_new d H e =
     Inr \<lparr> depth = d, poseidon = H, emptyLeaf = e,
           emptyBranchLevels = calculateEmptyBranchHashes H e d,
           tree = (init_loop d 0 Map.empty)(d \<mapsto> [nth_js (calculateEmptyBranchHashes H e d) d]) \<rparr>"
  by (simp add: MerkleTree_new_def Let_def)

lemma MerkleTree_new_fails_iff:
  "(\<exists>err. MerkleTree_new d H e = Inl err) \<longleftrightarrow> d < - 1"
  by (auto simp add: MerkleTree_new_def Let_def)

text \<open>
  Claim C2. Constructing a tree of depth \<open>d \<ge> 0\<close> succeeds and stores the empty-branch
  hashes of the heights \<open>0\<close> to \<open>d\<close>: entry \<open>0\<close> is the empty-leaf constant, entry \<open>i\<close>
  is the hash of entry \<open>i - 1\<close> with itself, and the root of the new tree is entry \<open>d\<close>.
\<close>

theorem C2_empty_branch_levels_and_root:
  assumes "0 \<le> d"
  shows "\<exists>t. MerkleTree_new d H e = Inr t
           \<and> length (emptyBranchLevels t) = nat d + 1
           \<and> nth_js (emptyBranchLevels t) 0 = Some e
           \<and> (\<forall>i. 1 \<le> i \<and> i \<le> d \<longrightarrow>
                  nth_js (emptyBranchLevels t) i =
                    Some (calculateNodeHash H (nth_js (emptyBranchLevels t) (i - 1))
                                              (nth_js (emptyBranchLevels t) (i - 1))))
           \<and> root t = Inr (nth_js (emptyBranchLevels t) d)
           \<and> nth_js (emptyBranchLevels t) d \<noteq> None"
proof -
  let ?ebl = "calculateEmptyBranchHashes H e d"
  let ?t = "\<lparr> depth = d, poseidon = H, emptyLeaf = e, emptyBranchLevels = ?ebl,
             tree = (init_loop d 0 Map.empty)(d \<mapsto> [nth_js ?ebl d]) \<rparr>"
  have ebl: "?ebl = map (\<lambda>k. Some (emptyBranchSpec H e k)) [0..<nat d + 1]"
    using assms by (simp add: calculateEmptyBranchHashes_spec max_def nat_add_distrib)
  have new: "MerkleTree_new d H e = Inr ?t"
    using assms by (simp add: MerkleTree_new_ok)
  have len: "length ?ebl = nat d + 1"
    by (simp add: ebl)
  have at: "nth_js ?ebl i = Some (emptyBranchSpec H e (nat i))" if "0 \<le> i" "i \<le> d" for i
    unfolding ebl nth_js_map_upt using that by auto
  have zero: "nth_js ?ebl 0 = Some e"
    using at [of 0] assms by simp
  have rec: "nth_js ?ebl i = Some (calculateNodeHash H (nth_js ?ebl (i - 1)) (nth_js ?ebl (i - 1)))"
    if "1 \<le> i" "i \<le> d" for i
  proof -
    from that obtain m where m: "nat i = Suc m" "nat (i - 1) = m"
      by (cases "nat i") auto
    show ?thesis
      using at [of i] at [of "i - 1"] that m by (simp add: calculateNodeHash_def)
  qed
  have rt: "root ?t = Inr (nth_js ?ebl d)"
    by (simp add: root_def nth_js_def)
  have top: "nth_js ?ebl d \<noteq> None"
    using at [of d] assms by simp
  from new len zero rec rt top show ?thesis
    by (intro exI [of _ ?t]) simp
qed

theorem C2_witness:
  "\<exists>t. MerkleTree_new 2 toyHash 5 = Inr t
     \<and> emptyBranchLevels t = [Some 5, Some 21, Some 85]
     \<and> root t = Inr (Some 85)"
proof -
  have d: "(0::int) \<le> 2" by simp
  have ebl: "calculateEmptyBranchHashes toyHash 5 2 = [Some 5, Some 21, Some 85]"
    by (simp add: calculateEmptyBranchHashes_def emptyBranch_loop.simps nth_js_def
        calculateNodeHash_def toyHash_def)
  from C2_empty_branch_levels_and_root [OF d, of toyHash 5]
  obtain t where t: "MerkleTree_new 2 toyHash 5 = Inr t"
    and rt: "root t = Inr (nth_js (emptyBranchLevels t) 2)"
    by blast
  from t have "emptyBranchLevels t = [Some 5, Some 21, Some 85]"
    using ebl by (auto simp add: MerkleTree_new_def Let_def)
  with t rt show ?thesis
    by (simp add: nth_js_def)
qed

text \<open>
  Claim C7. Construction fails only for a depth below zero: whenever the constructor
  throws, the depth is negative, and for every depth \<open>d \<ge> 0\<close> it returns a tree.
\<close>

theorem C7_construction_fails_only_below_zero:
  "(\<forall>err. MerkleTree_new d H e = Inl err \<longrightarrow> d < 0)
   \<and> (0 \<le> d \<longrightarrow> (\<exists>t. MerkleTree_new d H e = Inr t))"
  by (auto simp add: MerkleTree_new_def Let_def)

theorem C7_witness:
  "MerkleTree_new (- 2) toyHash 5 = Inl RangeError \<and> (- 2 :: int) < 0
   \<and> (0::int) \<le> 3 \<and> (\<exists>t. MerkleTree_new 3 toyHash 5 = Inr t)"
proof -
  have fails: "MerkleTree_new (- 2) toyHash 5 = Inl RangeError"
    by (simp add: MerkleTree_new_def)
  have "(0::int) \<le> 3" by simp
  with C7_construction_fails_only_below_zero [of 3 toyHash 5]
  have "\<exists>t. MerkleTree_new 3 toyHash 5 = Inr t" by blast
  moreover from fails C7_construction_fails_only_below_zero [of "- 2" toyHash 5]
  have "(- 2 :: int) < 0" by blast
  ultimately show ?thesis using fails by simp
qed

section \<open>Insertion\<close>

lemma parents_loop_spec:
  "pos = 2 * int k \<Longrightarrow>
   parents_loop H lvl eb pos acc =
     acc @ map (\<lambda>p. Some (calculateNodeHash H (nth_js lvl (2 * int p))
                                (nullish (nth_js lvl (2 * int p + 1)) eb)))
               [k..<(length lvl + 1) div 2]"
proof (induction H lvl eb pos acc arbitrary: k rule: parents_loop.induct)
  case (1 H lvl eb pos acc)
  let ?f = "\<lambda>p. Some (calculateNodeHash H (nth_js lvl (2 * int p))
                                (nullish (nth_js lvl (2 * int p + 1)) eb))"
  show ?case
  proof (cases "pos < int (length lvl)")
    case True
    then have k: "k < (length lvl + 1) div 2" using "1.prems" by linarith
    have next_pos: "pos + 2 = 2 * int (Suc k)" using "1.prems" by simp
    have "parents_loop H lvl eb pos acc =
            parents_loop H lvl eb (pos + 2)
              (acc @ [Some (calculateNodeHash H (nth_js lvl pos) (nullish (nth_js lvl (pos + 1)) eb))])"
      using True by (subst parents_loop.simps) simp
    also have "\<dots> = (acc @ [?f k]) @ map ?f [Suc k..<(length lvl + 1) div 2]"
      using "1.IH" [OF True next_pos] "1.prems" by simp
    also have "\<dots> = acc @ map ?f [k..<(length lvl + 1) div 2]"
      using k by (simp add: upt_conv_Cons)
    finally show ?thesis .
  next
    case False
    then have "(length lvl + 1) div 2 \<le> k" using "1.prems" by linarith
    with False show ?thesis by (subst parents_loop.simps) simp
  qed
qed

lemma parents_loop_length:
  "length (parents_loop H lvl eb 0 []) = (length lvl + 1) div 2"
  by (simp add: parents_loop_spec [where k = 0])

lemma parents_loop_nth:
  "0 \<le> p \<Longrightarrow> p < int ((length lvl + 1) div 2) \<Longrightarrow>
   nth_js (parents_loop H lvl eb 0 []) p =
     Some (calculateNodeHash H (nth_js lvl (2 * p)) (nullish (nth_js lvl (2 * p + 1)) eb))"
proof -
  assume p: "0 \<le> p" "p < int ((length lvl + 1) div 2)"
  let ?f = "\<lambda>q. Some (calculateNodeHash H (nth_js lvl (2 * int q))
                                (nullish (nth_js lvl (2 * int q + 1)) eb))"
  have eq: "parents_loop H lvl eb 0 [] = map ?f [0..<(length lvl + 1) div 2]"
    by (simp add: parents_loop_spec [where k = 0])
  have "nth_js (map ?f [0..<(length lvl + 1) div 2]) p = ?f (nat p)"
    using p by (subst nth_js_map_upt) simp
  then show ?thesis
    unfolding eq using p by simp
qed

lemma parents_loop_defined: "None \<notin> set (parents_loop H lvl eb 0 [])"
  by (auto simp add: parents_loop_spec [where k = 0])

lemma levelsAbove_shift:
  "levelsAbove H ebl (k + 1) (levelsAbove H ebl k lvl (Suc 0)) n = levelsAbove H ebl k lvl (Suc n)"
proof (induction n)
  case 0
  show ?case by simp
next
  case (Suc n)
  have e: "k + 1 + int n = k + int (Suc n)" by simp
  have "levelsAbove H ebl (k + 1) (levelsAbove H ebl k lvl (Suc 0)) (Suc n)
        = parents_loop H (levelsAbove H ebl (k + 1) (levelsAbove H ebl k lvl (Suc 0)) n)
            (nth_js ebl (k + 1 + int n)) 0 []"
    by (simp only: levelsAbove.simps)
  also have "\<dots> = parents_loop H (levelsAbove H ebl k lvl (Suc n)) (nth_js ebl (k + int (Suc n))) 0 []"
    by (simp only: Suc e)
  also have "\<dots> = levelsAbove H ebl k lvl (Suc (Suc n))"
    by (simp only: levelsAbove.simps)
  finally show ?case .
qed

lemma rebuild_loop_spec:
  "tr k = Some lvl \<Longrightarrow>
   rebuild_loop H d ebl k tr =
     Inr (\<lambda>l. if k < l \<and> l \<le> d then Some (levelsAbove H ebl k lvl (nat (l - k))) else tr l)"
proof (induction H d ebl k tr arbitrary: lvl rule: rebuild_loop.induct)
  case (1 H d ebl level tr)
  show ?case
  proof (cases "level < d")
    case True
    let ?P = "parents_loop H lvl (nth_js ebl level) 0 []"
    let ?tr = "tr(level + 1 \<mapsto> ?P)"
    have P: "?P = levelsAbove H ebl level lvl (Suc 0)" by simp
    have "rebuild_loop H d ebl level tr = rebuild_loop H d ebl (level + 1) ?tr"
      using True "1.prems" by (subst rebuild_loop.simps) simp
    also have "\<dots> = Inr (\<lambda>l. if level + 1 < l \<and> l \<le> d
                              then Some (levelsAbove H ebl (level + 1) ?P (nat (l - (level + 1))))
                              else ?tr l)"
      by (rule "1.IH" [OF True "1.prems"]) simp
    also have "(\<lambda>l. if level + 1 < l \<and> l \<le> d
                     then Some (levelsAbove H ebl (level + 1) ?P (nat (l - (level + 1))))
                     else ?tr l)
             = (\<lambda>l. if level < l \<and> l \<le> d then Some (levelsAbove H ebl level lvl (nat (l - level))) else tr l)"
    proof
      fix l
      show "(if level + 1 < l \<and> l \<le> d
             then Some (levelsAbove H ebl (level + 1) ?P (nat (l - (level + 1))))
             else ?tr l)
          = (if level < l \<and> l \<le> d then Some (levelsAbove H ebl level lvl (nat (l - level))) else tr l)"
      proof (cases "level + 1 < l \<and> l \<le> d")
        case True
        have "nat (l - level) = Suc (nat (l - (level + 1)))" using True by linarith
        with True show ?thesis
          unfolding P by (simp only: levelsAbove_shift) simp
      next
        case False
        with \<open>level < d\<close> show ?thesis by auto
      qed
    qed
    finally show ?thesis .
  next
    case False
    then show ?thesis by (subst rebuild_loop.simps) (auto simp add: fun_eq_iff)
  qed
qed

lemma nullish_nth_js:
  "None \<notin> set lvl \<Longrightarrow>
   nullish (nth_js lvl j) x = (if 0 \<le> j \<and> j < int (length lvl) then nth_js lvl j else x)"
proof (cases "0 \<le> j \<and> j < int (length lvl)")
  case True
  assume "None \<notin> set lvl"
  moreover have "nat j < length lvl" using True by linarith
  then have "lvl ! nat j \<in> set lvl" by (rule nth_mem)
  ultimately obtain v where "lvl ! nat j = Some v" by (cases "lvl ! nat j") auto
  with True show ?thesis by (simp add: nth_js_def nullish_def)
next
  case False
  then show ?thesis by (auto simp add: nth_js_def nullish_def)
qed

lemma levelsAbove_defined:
  "None \<notin> set lvl \<Longrightarrow> None \<notin> set (levelsAbove H ebl k lvl n)"
  by (cases n) (simp_all add: parents_loop_defined)

lemma insertLeaves_spec:
  assumes "leaves \<noteq> []" and "tree t 0 = Some lvl0"
  shows "insertLeaves t leaves =
           Inr (t\<lparr>tree := \<lambda>l. if l = 0 \<or> (0 < l \<and> l \<le> depth t)
                               then Some (levelsAbove (poseidon t) (emptyBranchLevels t) 0
                                            (lvl0 @ map Some leaves) (nat l))
                               else tree t l\<rparr>)"
proof -
  let ?tr = "(tree t)(0 \<mapsto> lvl0 @ map Some leaves)"
  have "rebuild_loop (poseidon t) (depth t) (emptyBranchLevels t) 0 ?tr =
          Inr (\<lambda>l. if 0 < l \<and> l \<le> depth t
                    then Some (levelsAbove (poseidon t) (emptyBranchLevels t) 0
                                 (lvl0 @ map Some leaves) (nat (l - 0)))
                    else ?tr l)"
    by (rule rebuild_loop_spec) simp
  moreover have "(\<lambda>l. if 0 < l \<and> l \<le> depth t
                    then Some (levelsAbove (poseidon t) (emptyBranchLevels t) 0
                                 (lvl0 @ map Some leaves) (nat (l - 0)))
                    else ?tr l)
               = (\<lambda>l. if l = 0 \<or> (0 < l \<and> l \<le> depth t)
                               then Some (levelsAbove (poseidon t) (emptyBranchLevels t) 0
                                            (lvl0 @ map Some leaves) (nat l))
                               else tree t l)"
    by (auto simp add: fun_eq_iff)
  ultimately show ?thesis
    using assms by (simp add: insertLeaves_def)
qed

text \<open>
  Claim C3. \<open>insertLeaves\<close> with no leaves returns the tree as it is. With leaves, on a
  tree whose level \<open>0\<close> exists and holds strings, it appends them to level \<open>0\<close> in order
  and rebuilds every level above: level \<open>l + 1\<close> has \<open>\<lceil>len / 2\<rceil>\<close> entries for a level \<open>l\<close>
  of \<open>len\<close> entries, and entry \<open>p\<close> is the hash of the entries \<open>2p\<close> and \<open>2p + 1\<close> of
  level \<open>l\<close>, with the empty-branch hash of level \<open>l\<close> where entry \<open>2p + 1\<close> is absent.
\<close>

theorem C3_insertLeaves_rebuilds_levels:
  assumes "tree t 0 = Some lvl0" and "None \<notin> set lvl0"
  shows "insertLeaves t [] = Inr t
       \<and> (leaves \<noteq> [] \<longrightarrow>
            (\<exists>t'. insertLeaves t leaves = Inr t'
               \<and> t' = t\<lparr>tree := tree t'\<rparr>
               \<and> tree t' 0 = Some (lvl0 @ map Some leaves)
               \<and> (\<forall>l. 0 \<le> l \<and> l < depth t \<longrightarrow>
                      (\<exists>lo up. tree t' l = Some lo \<and> tree t' (l + 1) = Some up
                         \<and> length up = (length lo + 1) div 2
                         \<and> (\<forall>p. 0 \<le> p \<and> p < int (length up) \<longrightarrow>
                                nth_js up p =
                                  Some (calculateNodeHash (poseidon t) (nth_js lo (2 * p))
                                         (if 2 * p + 1 < int (length lo) then nth_js lo (2 * p + 1)
                                          else nth_js (emptyBranchLevels t) l)))))))"
proof (intro conjI impI)
  show "insertLeaves t [] = Inr t"
    by (simp add: insertLeaves_def)
next
  assume ne: "leaves \<noteq> []"
  let ?H = "poseidon t" and ?ebl = "emptyBranchLevels t"
  let ?l0 = "lvl0 @ map Some leaves"
  let ?lv = "\<lambda>n. levelsAbove ?H ?ebl 0 ?l0 n"
  let ?tr = "\<lambda>l. if l = 0 \<or> (0 < l \<and> l \<le> depth t) then Some (?lv (nat l)) else tree t l"
  let ?t' = "t\<lparr>tree := ?tr\<rparr>"
  have ins: "insertLeaves t leaves = Inr ?t'"
    using ne assms(1) by (rule insertLeaves_spec)
  have def0: "None \<notin> set ?l0"
    using assms(2) by auto
  have levels: "\<exists>lo up. tree ?t' l = Some lo \<and> tree ?t' (l + 1) = Some up
                         \<and> length up = (length lo + 1) div 2
                         \<and> (\<forall>p. 0 \<le> p \<and> p < int (length up) \<longrightarrow>
                                nth_js up p =
                                  Some (calculateNodeHash ?H (nth_js lo (2 * p))
                                         (if 2 * p + 1 < int (length lo) then nth_js lo (2 * p + 1)
                                          else nth_js ?ebl l)))"
    if l: "0 \<le> l \<and> l < depth t" for l
  proof -
    have lo: "tree ?t' l = Some (?lv (nat l))"
      using l by auto
    have suc: "nat (l + 1) = Suc (nat l)" using l by linarith
    have up: "tree ?t' (l + 1) = Some (parents_loop ?H (?lv (nat l)) (nth_js ?ebl l) 0 [])"
      using l suc by simp
    have len: "length (parents_loop ?H (?lv (nat l)) (nth_js ?ebl l) 0 []) = (length (?lv (nat l)) + 1) div 2"
      by (rule parents_loop_length)
    have defd: "None \<notin> set (?lv (nat l))"
      using def0 by (rule levelsAbove_defined)
    have nth: "nth_js (parents_loop ?H (?lv (nat l)) (nth_js ?ebl l) 0 []) p =
                 Some (calculateNodeHash ?H (nth_js (?lv (nat l)) (2 * p))
                         (if 2 * p + 1 < int (length (?lv (nat l))) then nth_js (?lv (nat l)) (2 * p + 1)
                          else nth_js ?ebl l))"
      if p: "0 \<le> p \<and> p < int (length (parents_loop ?H (?lv (nat l)) (nth_js ?ebl l) 0 []))" for p
    proof -
      from p have "0 \<le> p" "p < int ((length (?lv (nat l)) + 1) div 2)"
        by (simp_all add: parents_loop_length)
      then have "nth_js (parents_loop ?H (?lv (nat l)) (nth_js ?ebl l) 0 []) p =
                 Some (calculateNodeHash ?H (nth_js (?lv (nat l)) (2 * p))
                         (nullish (nth_js (?lv (nat l)) (2 * p + 1)) (nth_js ?ebl l)))"
        by (rule parents_loop_nth)
      moreover have "nullish (nth_js (?lv (nat l)) (2 * p + 1)) (nth_js ?ebl l) =
                (if 2 * p + 1 < int (length (?lv (nat l))) then nth_js (?lv (nat l)) (2 * p + 1)
                          else nth_js ?ebl l)"
        using nullish_nth_js [OF defd, of "2 * p + 1" "nth_js ?ebl l"] \<open>0 \<le> p\<close> by simp
      ultimately show ?thesis by simp
    qed
    from lo up len nth show ?thesis by blast
  qed
  have t0: "tree ?t' 0 = Some ?l0" by simp
  have same: "?t' = t\<lparr>tree := tree ?t'\<rparr>" by simp
  show "\<exists>t'. insertLeaves t leaves = Inr t'
               \<and> t' = t\<lparr>tree := tree t'\<rparr>
               \<and> tree t' 0 = Some (lvl0 @ map Some leaves)
               \<and> (\<forall>l. 0 \<le> l \<and> l < depth t \<longrightarrow>
                      (\<exists>lo up. tree t' l = Some lo \<and> tree t' (l + 1) = Some up
                         \<and> length up = (length lo + 1) div 2
                         \<and> (\<forall>p. 0 \<le> p \<and> p < int (length up) \<longrightarrow>
                                nth_js up p =
                                  Some (calculateNodeHash (poseidon t) (nth_js lo (2 * p))
                                         (if 2 * p + 1 < int (length lo) then nth_js lo (2 * p + 1)
                                          else nth_js (emptyBranchLevels t) l)))))"
  proof (rule exI [of _ ?t'], intro conjI)
    show "insertLeaves t leaves = Inr ?t'" by (rule ins)
    show "?t' = t\<lparr>tree := tree ?t'\<rparr>" by (rule same)
    show "tree ?t' 0 = Some (lvl0 @ map Some leaves)" by (rule t0)
    show "\<forall>l. 0 \<le> l \<and> l < depth t \<longrightarrow>
                      (\<exists>lo up. tree ?t' l = Some lo \<and> tree ?t' (l + 1) = Some up
                         \<and> length up = (length lo + 1) div 2
                         \<and> (\<forall>p. 0 \<le> p \<and> p < int (length up) \<longrightarrow>
                                nth_js up p =
                                  Some (calculateNodeHash (poseidon t) (nth_js lo (2 * p))
                                         (if 2 * p + 1 < int (length lo) then nth_js lo (2 * p + 1)
                                          else nth_js (emptyBranchLevels t) l))))"
      using levels by blast
  qed
qed

lemma toyTree_new: "MerkleTree_new 2 toyHash 5 = Inr toyTree"
proof -
  have ebl: "calculateEmptyBranchHashes toyHash 5 2 = [Some 5, Some 21, Some 85]"
    by (simp add: calculateEmptyBranchHashes_def emptyBranch_loop.simps nth_js_def
        calculateNodeHash_def toyHash_def)
  have "(init_loop 2 0 Map.empty)(2 \<mapsto> [Some (85::nat)]) = [0 \<mapsto> [], 1 \<mapsto> [], 2 \<mapsto> [Some 85]]"
    by (simp add: init_loop.simps)
  then show ?thesis
    by (simp add: MerkleTree_new_def Let_def ebl toyTree_def nth_js_def)
qed

lemma toyTree_insert:
  "insertLeaves toyTree [1, 2, 3] =
     Inr toyTree3"
  by (simp add: insertLeaves_def toyTree_def toyTree3_def rebuild_loop.simps parents_loop.simps nth_js_def
      nullish_def calculateNodeHash_def toyHash_def)

theorem C3_witness:
  "insertLeaves toyTree [] = Inr toyTree
   \<and> (\<exists>t'. insertLeaves toyTree [1, 2, 3] = Inr t'
          \<and> tree t' 0 = Some [Some 1, Some 2, Some 3]
          \<and> tree t' 1 = Some [Some 6, Some 15]
          \<and> tree t' 2 = Some [Some 34])"
proof -
  have h1: "tree toyTree 0 = Some []" by (simp add: toyTree_def)
  have h2: "None \<notin> set ([] :: nat jsval list)" by simp
  have ne: "[1, 2, 3 :: nat] \<noteq> []" by simp
  from C3_insertLeaves_rebuilds_levels [OF h1 h2, of "[1, 2, 3]"] ne
  have "insertLeaves toyTree [] = Inr toyTree"
    and "\<exists>t'. insertLeaves toyTree [1, 2, 3] = Inr t' \<and> tree t' 0 = Some ([] @ map Some [1, 2, 3])"
    by blast+
  then show ?thesis
    using toyTree_insert by (auto simp add: toyTree3_def)
qed

section \<open>Proof creation\<close>

lemma indexOf_from_absent:
  "indexOf_from xs v i = - 1 \<longleftrightarrow> v \<notin> set xs" if "0 \<le> i"
  using that
proof (induction xs arbitrary: i)
  case Nil
  show ?case by simp
next
  case (Cons x xs)
  from Cons.IH [of "i + 1"] Cons.prems show ?case by auto
qed

lemma indexOf_from_first:
  "v \<in> set xs \<Longrightarrow>
   i \<le> indexOf_from xs v i \<and> indexOf_from xs v i < i + int (length xs)
   \<and> xs ! nat (indexOf_from xs v i - i) = v
   \<and> (\<forall>j < nat (indexOf_from xs v i - i). xs ! j \<noteq> v)"
proof (induction xs arbitrary: i)
  case Nil
  then show ?case by simp
next
  case (Cons x xs)
  show ?case
  proof (cases "x = v")
    case True
    then show ?thesis by simp
  next
    case False
    with Cons.prems have mem: "v \<in> set xs" by simp
    let ?r = "indexOf_from xs v (i + 1)"
    from Cons.IH [OF mem, of "i + 1"]
    have r: "i + 1 \<le> ?r" "?r < i + 1 + int (length xs)" "xs ! nat (?r - (i + 1)) = v"
      "\<forall>j < nat (?r - (i + 1)). xs ! j \<noteq> v"
      by blast+
    have eq: "indexOf_from (x # xs) v i = ?r" using False by simp
    have shift: "nat (?r - i) = Suc (nat (?r - (i + 1)))" using r(1) by linarith
    have "\<forall>j < nat (?r - i). (x # xs) ! j \<noteq> v"
    proof (intro allI impI)
      fix j assume "j < nat (?r - i)"
      then show "(x # xs) ! j \<noteq> v"
        using False r(4) shift by (cases j) auto
    qed
    then show ?thesis
      unfolding eq using r shift by simp
  qed
qed

lemma indexOf_absent: "indexOf xs v = - 1 \<longleftrightarrow> v \<notin> set xs"
  by (simp add: indexOf_def indexOf_from_absent)

lemma indexOf_first:
  assumes "v \<in> set xs"
  shows "0 \<le> indexOf xs v" and "indexOf xs v < int (length xs)"
    and "xs ! nat (indexOf xs v) = v"
    and "\<forall>j. 0 \<le> j \<and> j < indexOf xs v \<longrightarrow> xs ! nat j \<noteq> v"
proof -
  from indexOf_from_first [OF assms, of 0]
  have r: "0 \<le> indexOf xs v" "indexOf xs v < int (length xs)" "xs ! nat (indexOf xs v) = v"
    "\<forall>j < nat (indexOf xs v). xs ! j \<noteq> v"
    by (simp_all add: indexOf_def)
  then show "0 \<le> indexOf xs v" "indexOf xs v < int (length xs)" "xs ! nat (indexOf xs v) = v"
    by blast+
  show "\<forall>j. 0 \<le> j \<and> j < indexOf xs v \<longrightarrow> xs ! nat j \<noteq> v"
  proof (intro allI impI)
    fix j assume "0 \<le> j \<and> j < indexOf xs v"
    then have "nat j < nat (indexOf xs v)" by linarith
    with r(4) show "xs ! nat j \<noteq> v" by blast
  qed
qed

lemma path_loop_spec:
  "(\<forall>l. level \<le> l \<and> l < d \<longrightarrow> tr l \<noteq> None) \<Longrightarrow>
   path_loop tr ebl d level cur path =
     Inr (path @ map (\<lambda>n. siblingAt tr ebl (level + int n) (cur div 2 ^ n)) [0..<nat (d - level)])"
proof (induction tr ebl d level cur path rule: path_loop.induct)
  case (1 tr ebl d level curIndex path)
  show ?case
  proof (cases "level < d")
    case True
    with "1.prems" obtain lvl where lvl: "tr level = Some lvl" by auto
    let ?sib = "if curIndex mod 2 = 0 then nullish (nth_js lvl (curIndex + 1)) (nth_js ebl level)
                else nth_js lvl (curIndex - 1)"
    have sib: "?sib = siblingAt tr ebl level curIndex"
      by (simp add: siblingAt_def lvl)
    have rest: "\<forall>l. level + 1 \<le> l \<and> l < d \<longrightarrow> tr l \<noteq> None"
      using "1.prems" by auto
    have m: "nat (d - level) = Suc (nat (d - (level + 1)))"
      using True by linarith
    have "path_loop tr ebl d level curIndex path =
            path_loop tr ebl d (level + 1) (curIndex div 2) (path @ [?sib])"
      using True lvl by (subst path_loop.simps) simp
    also have "\<dots> = Inr ((path @ [?sib]) @
                 map (\<lambda>n. siblingAt tr ebl (level + 1 + int n) (curIndex div 2 div 2 ^ n))
                     [0..<nat (d - (level + 1))])"
      by (rule "1.IH" [OF True lvl rest])
    also have "(path @ [?sib]) @
                 map (\<lambda>n. siblingAt tr ebl (level + 1 + int n) (curIndex div 2 div 2 ^ n))
                     [0..<nat (d - (level + 1))]
             = path @ map (\<lambda>n. siblingAt tr ebl (level + int n) (curIndex div 2 ^ n))
                      [0..<nat (d - level)]"
    proof -
      have "curIndex div 2 div 2 ^ n = curIndex div 2 ^ Suc n" for n
        by (simp add: zdiv_zmult2_eq)
      moreover have "level + 1 + int n = level + int (Suc n)" for n by simp
      ultimately have "map (\<lambda>n. siblingAt tr ebl (level + 1 + int n) (curIndex div 2 div 2 ^ n))
                     [0..<nat (d - (level + 1))]
            = map (\<lambda>n. siblingAt tr ebl (level + int (Suc n)) (curIndex div 2 ^ Suc n))
                     [0..<nat (d - (level + 1))]"
        by (simp only:)
      then show ?thesis
        unfolding m map_upt_Suc sib by simp
    qed
    finally show ?thesis .
  next
    case False
    then show ?thesis by (subst path_loop.simps) simp
  qed
qed

lemma path_loop_error:
  "path_loop tr ebl d level cur path = Inl err \<Longrightarrow> err = TypeError"
proof (induction tr ebl d level cur path rule: path_loop.induct)
  case (1 tr ebl d level curIndex path)
  show ?case
  proof (cases "level < d")
    case True
    show ?thesis
    proof (cases "tr level")
      case None
      with True "1.prems" show ?thesis by (subst (asm) path_loop.simps) simp
    next
      case (Some lvl)
      with True "1.prems" have "path_loop tr ebl d (level + 1) (curIndex div 2)
          (path @ [if curIndex mod 2 = 0 then nullish (nth_js lvl (curIndex + 1)) (nth_js ebl level)
                   else nth_js lvl (curIndex - 1)]) = Inl err"
        by (subst (asm) path_loop.simps) simp
      with "1.IH" [OF True Some] show ?thesis by blast
    qed
  next
    case False
    with "1.prems" show ?thesis by (subst (asm) path_loop.simps) simp
  qed
qed

lemma createProof_found:
  assumes "tree t 0 = Some lvl0" and "Some lf \<in> set lvl0"
    and "\<forall>l. 0 \<le> l \<and> l < depth t \<longrightarrow> tree t l \<noteq> None"
  shows "createProof t lf =
           Inr \<lparr> leaf = lf,
                 pathElements = map (\<lambda>n. siblingAt (tree t) (emptyBranchLevels t) (int n)
                                          (indexOf lvl0 (Some lf) div 2 ^ n)) [0..<nat (depth t)],
                 leafIndex = indexOf lvl0 (Some lf) \<rparr>"
proof -
  have "indexOf lvl0 (Some lf) \<noteq> - 1"
    using assms(2) by (simp add: indexOf_absent)
  moreover have "path_loop (tree t) (emptyBranchLevels t) (depth t) 0 (indexOf lvl0 (Some lf)) [] =
      Inr ([] @ map (\<lambda>n. siblingAt (tree t) (emptyBranchLevels t) (0 + int n)
                                          (indexOf lvl0 (Some lf) div 2 ^ n)) [0..<nat (depth t - 0)])"
    by (rule path_loop_spec) (use assms(3) in simp)
  ultimately show ?thesis
    using assms(1) by (simp add: createProof_def Let_def)
qed

lemma createProof_absent:
  assumes "tree t 0 = Some lvl0"
  shows "createProof t lf = Inl LeafNotFound \<longleftrightarrow> Some lf \<notin> set lvl0"
proof
  assume "createProof t lf = Inl LeafNotFound"
  then show "Some lf \<notin> set lvl0"
    using assms
    by (auto simp add: createProof_def Let_def indexOf_absent split: if_splits sum.splits
        dest: path_loop_error)
next
  assume "Some lf \<notin> set lvl0"
  then have "indexOf lvl0 (Some lf) = - 1" by (simp add: indexOf_absent)
  then show "createProof t lf = Inl LeafNotFound"
    using assms by (simp add: createProof_def Let_def)
qed

text \<open>
  Claim C4. On a tree whose levels below the root level exist, \<open>createProof\<close> fails with
  \<open>LeafNotFound\<close> exactly when the leaf does not occur in level \<open>0\<close>. Otherwise it returns
  a proof for the first occurrence of the leaf: no earlier position holds it, and
  \<open>pathElements\<close> has one entry for each level below the root, the sibling of the node on
  the way from that position to the root.
\<close>

theorem C4_createProof_first_occurrence:
  assumes "tree t 0 = Some lvl0"
    and "\<forall>l. 0 \<le> l \<and> l < depth t \<longrightarrow> tree t l \<noteq> None"
  shows "(createProof t lf = Inl LeafNotFound \<longleftrightarrow> Some lf \<notin> set lvl0)
       \<and> (Some lf \<in> set lvl0 \<longrightarrow>
            (\<exists>pf. createProof t lf = Inr pf \<and> leaf pf = lf
               \<and> 0 \<le> leafIndex pf \<and> nth_js lvl0 (leafIndex pf) = Some lf
               \<and> (\<forall>j. 0 \<le> j \<and> j < leafIndex pf \<longrightarrow> nth_js lvl0 j \<noteq> Some lf)
               \<and> int (length (pathElements pf)) = max 0 (depth t)
               \<and> (\<forall>l. 0 \<le> l \<and> l < depth t \<longrightarrow>
                      nth_js (pathElements pf) l =
                        siblingAt (tree t) (emptyBranchLevels t) l (leafIndex pf div 2 ^ nat l))))"
proof (intro conjI impI)
  show "createProof t lf = Inl LeafNotFound \<longleftrightarrow> Some lf \<notin> set lvl0"
    using assms(1) by (rule createProof_absent)
next
  assume mem: "Some lf \<in> set lvl0"
  let ?idx = "indexOf lvl0 (Some lf)"
  let ?path = "map (\<lambda>n. siblingAt (tree t) (emptyBranchLevels t) (int n) (?idx div 2 ^ n))
                   [0..<nat (depth t)]"
  let ?pf = "\<lparr> leaf = lf, pathElements = ?path, leafIndex = ?idx \<rparr>"
  have cp: "createProof t lf = Inr ?pf"
    using assms(1) mem assms(2) by (rule createProof_found)
  note first = indexOf_first [OF mem]
  have at: "nth_js lvl0 ?idx = Some lf"
    using first(1,2,3) by (simp add: nth_js_def)
  have before: "\<forall>j. 0 \<le> j \<and> j < ?idx \<longrightarrow> nth_js lvl0 j \<noteq> Some lf"
  proof (intro allI impI)
    fix j assume j: "0 \<le> j \<and> j < ?idx"
    then have "lvl0 ! nat j \<noteq> Some lf" using first(4) by blast
    moreover have "j < int (length lvl0)" using j first(2) by linarith
    ultimately show "nth_js lvl0 j \<noteq> Some lf" using j by (simp add: nth_js_def)
  qed
  have len: "int (length ?path) = max 0 (depth t)" by simp
  have sib: "\<forall>l. 0 \<le> l \<and> l < depth t \<longrightarrow>
               nth_js ?path l = siblingAt (tree t) (emptyBranchLevels t) l (?idx div 2 ^ nat l)"
  proof (intro allI impI)
    fix l assume l: "0 \<le> l \<and> l < depth t"
    then have "nth_js ?path l = siblingAt (tree t) (emptyBranchLevels t) (int (nat l)) (?idx div 2 ^ nat l)"
      by (subst nth_js_map_upt) simp
    with l show "nth_js ?path l = siblingAt (tree t) (emptyBranchLevels t) l (?idx div 2 ^ nat l)"
      by simp
  qed
  show "\<exists>pf. createProof t lf = Inr pf \<and> leaf pf = lf
               \<and> 0 \<le> leafIndex pf \<and> nth_js lvl0 (leafIndex pf) = Some lf
               \<and> (\<forall>j. 0 \<le> j \<and> j < leafIndex pf \<longrightarrow> nth_js lvl0 j \<noteq> Some lf)
               \<and> int (length (pathElements pf)) = max 0 (depth t)
               \<and> (\<forall>l. 0 \<le> l \<and> l < depth t \<longrightarrow>
                      nth_js (pathElements pf) l =
                        siblingAt (tree t) (emptyBranchLevels t) l (leafIndex pf div 2 ^ nat l))"
  proof (rule exI [of _ ?pf], intro conjI)
    show "createProof t lf = Inr ?pf" by (rule cp)
    show "leaf ?pf = lf" by simp
    show "0 \<le> leafIndex ?pf" using first(1) by simp
    show "nth_js lvl0 (leafIndex ?pf) = Some lf" using at by simp
    show "\<forall>j. 0 \<le> j \<and> j < leafIndex ?pf \<longrightarrow> nth_js lvl0 j \<noteq> Some lf" using before by simp
    show "int (length (pathElements ?pf)) = max 0 (depth t)" using len by simp
    show "\<forall>l. 0 \<le> l \<and> l < depth t \<longrightarrow>
                      nth_js (pathElements ?pf) l =
                        siblingAt (tree t) (emptyBranchLevels t) l (leafIndex ?pf div 2 ^ nat l)"
      using sib by simp
  qed
qed

lemma toyTree3_proof:
  "createProof toyTree3 3 = Inr \<lparr> leaf = 3, pathElements = [Some 5, Some 6], leafIndex = 2 \<rparr>"
  by (simp add: createProof_def toyTree3_def toyTree_def indexOf_def path_loop.simps nth_js_def
      nullish_def)

theorem C4_witness:
  "createProof toyTree3 3 = Inr \<lparr> leaf = 3, pathElements = [Some 5, Some 6], leafIndex = 2 \<rparr>
   \<and> (\<exists>pf. createProof toyTree3 3 = Inr pf \<and> nth_js [Some 1, Some 2, Some (3::nat)] (leafIndex pf) = Some 3
           \<and> int (length (pathElements pf)) = 2)
   \<and> createProof toyTree3 4 = Inl LeafNotFound"
proof -
  have h1: "tree toyTree3 0 = Some [Some 1, Some 2, Some 3]"
    by (simp add: toyTree3_def)
  have h2: "\<forall>l. 0 \<le> l \<and> l < depth toyTree3 \<longrightarrow> tree toyTree3 l \<noteq> None"
    by (simp add: toyTree3_def toyTree_def)
  have d: "max 0 (depth toyTree3) = 2"
    by (simp add: toyTree3_def toyTree_def)
  have "Some (4::nat) \<notin> set [Some 1, Some 2, Some 3]" by simp
  with C4_createProof_first_occurrence [OF h1 h2, of 4]
  have absent: "createProof toyTree3 4 = Inl LeafNotFound" by blast
  have mem: "Some (3::nat) \<in> set [Some 1, Some 2, Some 3]" by simp
  note found_case = C4_createProof_first_occurrence [OF h1 h2, of 3, THEN conjunct2, THEN mp, OF mem]
  then obtain pf where pf: "createProof toyTree3 3 = Inr pf
               \<and> leaf pf = 3
               \<and> 0 \<le> leafIndex pf \<and> nth_js [Some 1, Some 2, Some (3::nat)] (leafIndex pf) = Some (3::nat)
               \<and> (\<forall>j. 0 \<le> j \<and> j < leafIndex pf \<longrightarrow> nth_js [Some 1, Some 2, Some (3::nat)] j \<noteq> Some (3::nat))
               \<and> int (length (pathElements pf)) = max 0 (depth toyTree3)
               \<and> (\<forall>l. 0 \<le> l \<and> l < depth toyTree3 \<longrightarrow>
                      nth_js (pathElements pf) l =
                        siblingAt (tree toyTree3) (emptyBranchLevels toyTree3) l (leafIndex pf div 2 ^ nat l))" ..
  then have "createProof toyTree3 3 = Inr pf" "nth_js [Some 1, Some 2, Some (3::nat)] (leafIndex pf) = Some (3::nat)"
    "int (length (pathElements pf)) = max 0 (depth toyTree3)"
    by blast+
  then have found: "\<exists>pf. createProof toyTree3 3 = Inr pf \<and> nth_js [Some 1, Some 2, Some (3::nat)] (leafIndex pf) = Some (3::nat)
           \<and> int (length (pathElements pf)) = 2"
    unfolding d by (intro exI [of _ pf] conjI)
  from toyTree3_proof found absent show ?thesis by blast
qed

section \<open>Verification\<close>

lemma bigint_rem_2_nonneg: "0 \<le> a \<Longrightarrow> bigint_rem a 2 = 1 \<longleftrightarrow> a mod 2 = 1"
  by (cases "a = 0") (auto simp add: bigint_rem_def sgn_if)

lemma isNodeOnRight_bit: "isNodeOnRight (int n) (int k) \<longleftrightarrow> bit n k"
proof -
  have "int n div 2 ^ k = int (n div 2 ^ k)"
    by (simp add: zdiv_int)
  then have "isNodeOnRight (int n) (int k) \<longleftrightarrow> int (n div 2 ^ k) mod 2 = 1"
    by (simp add: isNodeOnRight_def bigint_rem_2_nonneg)
  also have "\<dots> \<longleftrightarrow> odd (n div 2 ^ k)"
    by presburger
  finally show ?thesis by (simp add: bit_iff_odd)
qed

lemma hashUp_loop_spec:
  "i = int k \<Longrightarrow> leafIndex pf = int n \<Longrightarrow>
   hashUp_loop H pf i cur =
     foldl (verifyStep H (pathElements pf) n) cur [k..<length (pathElements pf)]"
proof (induction H pf i cur arbitrary: k rule: hashUp_loop.induct)
  case (1 H pf i currentNode)
  let ?path = "pathElements pf"
  show ?case
  proof (cases "i < int (length ?path)")
    case True
    then have k: "k < length ?path" using "1.prems" by simp
    let ?next = "if isNodeOnRight (leafIndex pf) i
                 then calculateNodeHash H (nth_js ?path i) (Some currentNode)
                 else calculateNodeHash H (Some currentNode) (nth_js ?path i)"
    have at: "nth_js ?path (int k) = ?path ! k"
      using k by (simp add: nth_js_def)
    have step: "?next = verifyStep H ?path n currentNode k"
      using "1.prems" by (simp add: verifyStep_def at isNodeOnRight_bit)
    have "hashUp_loop H pf i currentNode = hashUp_loop H pf (i + 1) ?next"
      using True by (subst hashUp_loop.simps) simp
    also have "\<dots> = foldl (verifyStep H ?path n) ?next [Suc k..<length ?path]"
      by (rule "1.IH" [OF True]) (use "1.prems" in simp_all)
    also have "\<dots> = foldl (verifyStep H ?path n) currentNode [k..<length ?path]"
      using k by (simp add: upt_conv_Cons step)
    finally show ?thesis .
  next
    case False
    then have "length ?path \<le> k" using "1.prems" by simp
    with False show ?thesis by (subst hashUp_loop.simps) simp
  qed
qed

text \<open>
  Claim C5. \<open>getMerkleRootFromProof\<close> is the fold of the specification: it starts from the
  leaf of the proof and, for the levels \<open>0, \<dots>, len(pathElements) - 1\<close> in turn, hashes the
  current node with \<open>pathElements[i]\<close>, the current node on the right when bit \<open>i\<close> of the
  position is set and on the left otherwise. It is a function of the proof and the hash
  alone and never fails.
\<close>

theorem C5_verification_is_fold:
  "getMerkleRootFromProof \<lparr> leaf = lf, pathElements = path, leafIndex = int n \<rparr> H e =
     Inr (verifyProof_spec H lf path n)"
proof -
  have "MerkleTree_new 0 H e =
          Inr \<lparr> depth = 0, poseidon = H, emptyLeaf = e,
                emptyBranchLevels = calculateEmptyBranchHashes H e 0,
                tree = (init_loop 0 0 Map.empty)(0 \<mapsto> [nth_js (calculateEmptyBranchHashes H e 0) 0]) \<rparr>"
    by (rule MerkleTree_new_ok) simp
  moreover have "hashUp_loop H \<lparr> leaf = lf, pathElements = path, leafIndex = int n \<rparr> 0 lf =
      foldl (verifyStep H path n) lf [0..<length path]"
    using hashUp_loop_spec [of 0 0 "\<lparr> leaf = lf, pathElements = path, leafIndex = int n \<rparr>" n H lf]
    by simp
  ultimately show ?thesis
    by (simp add: getMerkleRootFromProof_def verifyProof_spec_def)
qed

lemma toyTree3_verify:
  "getMerkleRootFromProof \<lparr> leaf = 3, pathElements = [Some 5, Some 6], leafIndex = 2 \<rparr> toyHash 5
     = Inr 34"
  by (simp add: getMerkleRootFromProof_def MerkleTree_new_def Let_def hashUp_loop.simps
      isNodeOnRight_def bigint_rem_def nth_js_def calculateNodeHash_def toyHash_def)

lemma negative_index_all_left: "\<not> isNodeOnRight (- 1) i"
  by (simp add: isNodeOnRight_def bigint_rem_def div_eq_minus1)

section \<open>Proofs recompute the root\<close>

lemma div_pow_Suc: "(a::int) div 2 ^ Suc n = a div 2 ^ n div 2"
  unfolding power_Suc2 by (rule zdiv_zmult2_eq) simp

lemma levelsAbove_index_in_range:
  "0 \<le> idx \<Longrightarrow> idx < int (length l0) \<Longrightarrow>
   idx div 2 ^ n < int (length (levelsAbove H ebl k l0 n))"
proof (induction n)
  case 0
  then show ?case by simp
next
  case (Suc n)
  let ?q = "idx div 2 ^ n"
  have q: "?q < int (length (levelsAbove H ebl k l0 n))" using Suc by simp
  have "idx div 2 ^ Suc n = ?q div 2"
    by (rule div_pow_Suc)
  moreover have "?q div 2 < int ((length (levelsAbove H ebl k l0 n) + 1) div 2)"
    using q by linarith
  ultimately show ?case
    by (simp only: levelsAbove.simps parents_loop_length)
qed

lemma parent_of_node:
  assumes q: "0 \<le> q" "q < int (length lvl)" and cur: "nth_js lvl q = Some cur"
    and tr: "tr l = Some lvl"
  shows "nth_js (parents_loop H lvl (nth_js ebl l) 0 []) (q div 2) =
           Some (if q mod 2 = 1 then calculateNodeHash H (siblingAt tr ebl l q) (Some cur)
                 else calculateNodeHash H (Some cur) (siblingAt tr ebl l q))"
proof -
  let ?p = "q div 2"
  have p: "0 \<le> ?p" "?p < int ((length lvl + 1) div 2)" using q by linarith+
  have par: "nth_js (parents_loop H lvl (nth_js ebl l) 0 []) ?p =
          Some (calculateNodeHash H (nth_js lvl (2 * ?p)) (nullish (nth_js lvl (2 * ?p + 1)) (nth_js ebl l)))"
    using p by (rule parents_loop_nth)
  show ?thesis
  proof (cases "q mod 2 = 1")
    case True
    then have e: "2 * ?p + 1 = q" "2 * ?p = q - 1" by presburger+
    from True have "siblingAt tr ebl l q = nth_js lvl (q - 1)"
      by (simp add: siblingAt_def tr)
    with True show ?thesis
      unfolding par e by (simp add: cur nullish_def)
  next
    case False
    then have e: "2 * ?p = q" "2 * ?p + 1 = q + 1" and z: "q mod 2 = 0" by presburger+
    from z have "siblingAt tr ebl l q = nullish (nth_js lvl (q + 1)) (nth_js ebl l)"
      by (simp add: siblingAt_def tr)
    with False show ?thesis
      unfolding par e by (simp add: cur)
  qed
qed

lemma hashUp_loop_reaches_top:
  "i = int k \<Longrightarrow> k \<le> nat d \<Longrightarrow>
   nth_js (levelsAbove H ebl 0 l0 k) (idx div 2 ^ k) = Some cur \<Longrightarrow>
   0 \<le> idx \<Longrightarrow> idx < int (length l0) \<Longrightarrow>
   \<forall>l. 0 \<le> l \<and> l \<le> d \<longrightarrow> tr l = Some (levelsAbove H ebl 0 l0 (nat l)) \<Longrightarrow>
   pathElements pf = map (\<lambda>n. siblingAt tr ebl (int n) (idx div 2 ^ n)) [0..<nat d] \<Longrightarrow>
   leafIndex pf = idx \<Longrightarrow>
   nth_js (levelsAbove H ebl 0 l0 (nat d)) (idx div 2 ^ nat d) = Some (hashUp_loop H pf i cur)"
proof (induction H pf i cur arbitrary: k rule: hashUp_loop.induct)
  case (1 H pf i currentNode)
  note ik = "1.prems"(1) and kd = "1.prems"(2) and cur = "1.prems"(3)
    and idx = "1.prems"(4,5) and tr = "1.prems"(6) and path = "1.prems"(7) and li = "1.prems"(8)
  have len: "length (pathElements pf) = nat d" using path by simp
  show ?case
  proof (cases "i < int (length (pathElements pf))")
    case True
    then have "int k < int (nat d)" unfolding len ik .
    then have k: "k < nat d" by (simp only: of_nat_less_iff)
    let ?q = "idx div 2 ^ k"
    let ?lvl = "levelsAbove H ebl 0 l0 k"
    have q: "0 \<le> ?q" "?q < int (length ?lvl)"
      using idx levelsAbove_index_in_range [OF idx, of k H ebl 0]
      by (simp_all add: pos_imp_zdiv_nonneg_iff)
    have trk: "tr (int k) = Some ?lvl" using tr k by simp
    have pk: "nth_js (pathElements pf) i = siblingAt tr ebl (int k) ?q"
    proof -
      have r: "0 \<le> i \<and> i < int (nat d)" using k ik by linarith
      have n: "nat i = k" using ik by simp
      show ?thesis
        unfolding path nth_js_map_upt by (simp only: r if_True n simp_thms)
    qed
    have right: "isNodeOnRight (leafIndex pf) i \<longleftrightarrow> ?q mod 2 = 1"
      using q(1) ik li by (simp add: isNodeOnRight_def bigint_rem_2_nonneg)
    let ?next = "if isNodeOnRight (leafIndex pf) i
                 then calculateNodeHash H (nth_js (pathElements pf) i) (Some currentNode)
                 else calculateNodeHash H (Some currentNode) (nth_js (pathElements pf) i)"
    have "nth_js (parents_loop H ?lvl (nth_js ebl (int k)) 0 []) (?q div 2) =
           Some (if ?q mod 2 = 1 then calculateNodeHash H (siblingAt tr ebl (int k) ?q) (Some currentNode)
                 else calculateNodeHash H (Some currentNode) (siblingAt tr ebl (int k) ?q))"
      using q cur trk by (rule parent_of_node)
    moreover have "idx div 2 ^ Suc k = ?q div 2"
      by (rule div_pow_Suc)
    ultimately have nxt: "nth_js (levelsAbove H ebl 0 l0 (Suc k)) (idx div 2 ^ Suc k) = Some ?next"
      by (simp add: right pk)
    have "nth_js (levelsAbove H ebl 0 l0 (nat d)) (idx div 2 ^ nat d) =
            Some (hashUp_loop H pf (i + 1) ?next)"
    proof (rule "1.IH" [OF True _ _ nxt idx tr path li])
      show "i + 1 = int (Suc k)" using ik by simp
      show "Suc k \<le> nat d" using k by simp
    qed
    moreover have "hashUp_loop H pf i currentNode = hashUp_loop H pf (i + 1) ?next"
      using True by (subst hashUp_loop.simps) simp
    ultimately show ?thesis by simp
  next
    case False
    then have "\<not> int k < int (nat d)" unfolding len ik .
    then have "k = nat d" using kd by (simp only: of_nat_less_iff)
    moreover have "hashUp_loop H pf i currentNode = currentNode"
      using False by (subst hashUp_loop.simps) simp
    ultimately show ?thesis using cur by simp
  qed
qed

lemma getMerkleRootFromProof_loop:
  "getMerkleRootFromProof pf H e = Inr (hashUp_loop H pf 0 (leaf pf))"
  by (simp add: getMerkleRootFromProof_def MerkleTree_new_def Let_def)

lemma roundtrip_consistent:
  assumes tr: "\<forall>l. 0 \<le> l \<and> l \<le> depth t \<longrightarrow>
                 tree t l = Some (levelsAbove (poseidon t) (emptyBranchLevels t) 0 l0 (nat l))"
    and d: "0 \<le> depth t" and mem: "Some lf \<in> set l0" and cap: "length l0 \<le> 2 ^ nat (depth t)"
  shows "\<exists>pf r. createProof t lf = Inr pf \<and> getMerkleRootFromProof pf (poseidon t) e = Inr r
                \<and> root t = Inr (Some r)"
proof -
  let ?H = "poseidon t" and ?ebl = "emptyBranchLevels t" and ?d = "depth t"
  let ?idx = "indexOf l0 (Some lf)"
  let ?pf = "\<lparr> leaf = lf,
               pathElements = map (\<lambda>n. siblingAt (tree t) ?ebl (int n) (?idx div 2 ^ n)) [0..<nat ?d],
               leafIndex = ?idx \<rparr>"
  have t0: "tree t 0 = Some l0" using tr d by simp
  have defined: "\<forall>l. 0 \<le> l \<and> l < ?d \<longrightarrow> tree t l \<noteq> None" using tr by simp
  have cp: "createProof t lf = Inr ?pf"
    using t0 mem defined by (rule createProof_found)
  note first = indexOf_first [OF mem]
  have start: "nth_js (levelsAbove ?H ?ebl 0 l0 0) (?idx div 2 ^ 0) = Some lf"
    using first(1,2,3) by (simp add: nth_js_def)
  have top: "nth_js (levelsAbove ?H ?ebl 0 l0 (nat ?d)) (?idx div 2 ^ nat ?d) =
               Some (hashUp_loop ?H ?pf 0 lf)"
    by (rule hashUp_loop_reaches_top [where k = 0 and tr = "tree t", OF _ _ start first(1,2) tr])
      simp_all
  have "?idx < 2 ^ nat ?d"
  proof -
    have "?idx < int (length l0)" by (rule first(2))
    also have "\<dots> \<le> int (2 ^ nat ?d)" using cap by (simp only: of_nat_le_iff)
    finally show ?thesis by simp
  qed
  then have zero: "?idx div 2 ^ nat ?d = 0"
    using first(1) by (simp add: div_pos_pos_trivial)
  have rt: "root t = Inr (nth_js (levelsAbove ?H ?ebl 0 l0 (nat ?d)) 0)"
    using tr d by (simp add: root_def)
  have "getMerkleRootFromProof ?pf ?H e = Inr (hashUp_loop ?H ?pf 0 lf)"
    by (simp add: getMerkleRootFromProof_loop)
  moreover have "root t = Inr (Some (hashUp_loop ?H ?pf 0 lf))"
    using rt top zero by simp
  ultimately show ?thesis using cp by blast
qed

lemma fresh_tree_level0:
  assumes "1 \<le> d" and "MerkleTree_new d H e = Inr t0"
  shows "tree t0 0 = Some []" and "depth t0 = d" and "poseidon t0 = H"
  using assms by (auto simp add: MerkleTree_new_ok init_loop_spec)

text \<open>
  For every depth \<open>d \<ge> 1\<close>: after the leaves, at most \<open>2 ^ d\<close> of them, are inserted
  into a new tree, the proof created for any of them recomputes the root of the tree.
\<close>

theorem proof_recomputes_root:
  assumes d: "1 \<le> d" and new: "MerkleTree_new d H e = Inr t0"
    and cap: "length leaves \<le> 2 ^ nat d" and mem: "lf \<in> set leaves"
  shows "\<exists>t pf r. insertLeaves t0 leaves = Inr t \<and> createProof t lf = Inr pf
           \<and> getMerkleRootFromProof pf H e = Inr r \<and> root t = Inr (Some r)"
proof -
  note fresh = fresh_tree_level0 [OF d new]
  let ?l0 = "[] @ map Some leaves"
  let ?t = "t0\<lparr>tree := \<lambda>l. if l = 0 \<or> (0 < l \<and> l \<le> depth t0)
                              then Some (levelsAbove (poseidon t0) (emptyBranchLevels t0) 0 ?l0 (nat l))
                              else tree t0 l\<rparr>"
  have ne: "leaves \<noteq> []" using mem by auto
  have ins: "insertLeaves t0 leaves = Inr ?t"
    using ne fresh(1) by (rule insertLeaves_spec)
  have "\<exists>pf r. createProof ?t lf = Inr pf \<and> getMerkleRootFromProof pf (poseidon ?t) e = Inr r
                \<and> root ?t = Inr (Some r)"
  proof (rule roundtrip_consistent [where ?l0.0 = ?l0])
    show "\<forall>l. 0 \<le> l \<and> l \<le> depth ?t \<longrightarrow>
            tree ?t l = Some (levelsAbove (poseidon ?t) (emptyBranchLevels ?t) 0 ?l0 (nat l))"
      by auto
    show "0 \<le> depth ?t" using d fresh(2) by simp
    show "Some lf \<in> set ?l0" using mem by simp
    show "length ?l0 \<le> 2 ^ nat (depth ?t)" using cap fresh(2) by simp
  qed
  then show ?thesis using ins fresh(3) by auto
qed

lemma toyTree0_new: "MerkleTree_new 0 toyHash 5 = Inr toyTree0"
  by (simp add: MerkleTree_new_def Let_def calculateEmptyBranchHashes_def emptyBranch_loop.simps
      init_loop.simps toyTree0_def nth_js_def)

lemma toyTree0_insert: "insertLeaves toyTree0 [1] = Inr toyTree0a"
  by (simp add: insertLeaves_def toyTree0_def toyTree0a_def rebuild_loop.simps)

text \<open>
  Claim C1 at depth \<open>0\<close>. The constructor stores the empty root in level \<open>0\<close>, which is
  the leaf level of a tree of depth \<open>0\<close>, and \<open>insertLeaves\<close> appends behind it. The leaf
  \<open>1\<close> is found at position \<open>1\<close>, its proof has no path element and recomputes \<open>1\<close>,
  while the root of the tree is still the empty leaf \<open>5\<close>.
\<close>

theorem C1_depth0_divergence:
  "MerkleTree_new 0 toyHash 5 = Inr toyTree0
   \<and> insertLeaves toyTree0 [1] = Inr toyTree0a
   \<and> createProof toyTree0a 1 = Inr \<lparr> leaf = 1, pathElements = [], leafIndex = 1 \<rparr>
   \<and> getMerkleRootFromProof \<lparr> leaf = 1, pathElements = [], leafIndex = 1 \<rparr> toyHash 5 = Inr 1
   \<and> root toyTree0a = Inr (Some 5)"
proof -
  have "createProof toyTree0a 1 = Inr \<lparr> leaf = 1, pathElements = [], leafIndex = 1 \<rparr>"
    by (simp add: createProof_def toyTree0a_def toyTree0_def indexOf_def path_loop.simps)
  moreover have "getMerkleRootFromProof \<lparr> leaf = 1, pathElements = [], leafIndex = 1 \<rparr> toyHash 5
                 = Inr (1::nat)"
    by (simp add: getMerkleRootFromProof_loop hashUp_loop.simps)
  moreover have "root toyTree0a = Inr (Some 5)"
    by (simp add: root_def toyTree0a_def toyTree0_def nth_js_def)
  ultimately show ?thesis
    using toyTree0_new toyTree0_insert by simp
qed

theorem proof_recomputes_root_witness:
  "\<exists>t pf r. insertLeaves toyTree [1, 2, 3] = Inr t \<and> createProof t 3 = Inr pf
           \<and> getMerkleRootFromProof pf toyHash 5 = Inr r \<and> root t = Inr (Some r)"
proof -
  have d: "(1::int) \<le> 2" by simp
  have cap: "length [1, 2, 3 :: nat] \<le> 2 ^ nat 2" by simp
  have mem: "(3::nat) \<in> set [1, 2, 3]" by simp
  show ?thesis
    using d toyTree_new cap mem by (rule proof_recomputes_root)
qed

section \<open>The number of entries of a level\<close>

lemma ceil_half_step:
  "((m + 2 ^ n - 1) div 2 ^ n + 1) div 2 = (m + 2 ^ Suc n - 1) div 2 ^ Suc n" for m :: nat
proof -
  let ?a = "2 ^ n :: nat"
  have a: "0 < ?a" by simp
  have "(m + ?a - 1) div ?a + 1 = (m + ?a - 1 + ?a) div ?a"
    using a by simp
  also have "m + ?a - 1 + ?a = m + 2 ^ Suc n - 1"
    using a by simp
  finally have "((m + ?a - 1) div ?a + 1) div 2 = (m + 2 ^ Suc n - 1) div ?a div 2"
    by simp
  also have "\<dots> = (m + 2 ^ Suc n - 1) div (?a * 2)"
    by (simp only: div_mult2_eq)
  finally show ?thesis by (simp add: mult.commute)
qed

lemma levelsAbove_length:
  "length (levelsAbove H ebl k lvl n) = (length lvl + 2 ^ n - 1) div 2 ^ n"
proof (induction n)
  case 0
  show ?case by simp
next
  case (Suc n)
  have "length (levelsAbove H ebl k lvl (Suc n)) = (length (levelsAbove H ebl k lvl n) + 1) div 2"
    by (simp only: levelsAbove.simps parents_loop_length)
  also have "\<dots> = ((length lvl + 2 ^ n - 1) div 2 ^ n + 1) div 2"
    by (simp only: Suc)
  also have "\<dots> = (length lvl + 2 ^ Suc n - 1) div 2 ^ Suc n"
    by (rule ceil_half_step)
  finally show ?case .
qed

lemma levelsAbove_nonempty:
  "lvl \<noteq> [] \<Longrightarrow> levelsAbove H ebl k lvl n \<noteq> []"
proof -
  assume "lvl \<noteq> []"
  then have "1 \<le> length lvl" by (cases lvl) simp_all
  then have "2 ^ n \<le> length lvl + 2 ^ n - 1" by simp
  then have "1 \<le> (length lvl + 2 ^ n - 1) div 2 ^ n"
    by (simp add: Suc_le_eq div_greater_zero_iff)
  then have "1 \<le> length (levelsAbove H ebl k lvl n)"
    by (simp only: levelsAbove_length)
  then show ?thesis by auto
qed

lemma insertMany_spec:
  assumes d: "1 \<le> depth t0" and t0: "tree t0 0 = Some []"
  shows "t = t0\<lparr>tree := tree t\<rparr> \<Longrightarrow>
         (sofar = [] \<longrightarrow> t = t0) \<Longrightarrow>
         (sofar \<noteq> [] \<longrightarrow> (\<forall>l. 0 \<le> l \<and> l \<le> depth t0 \<longrightarrow>
             tree t l = Some (levelsAbove (poseidon t0) (emptyBranchLevels t0) 0 (map Some sofar) (nat l)))) \<Longrightarrow>
         \<exists>t'. insertMany t batches = Inr t' \<and> t' = t0\<lparr>tree := tree t'\<rparr>
            \<and> (sofar @ concat batches = [] \<longrightarrow> t' = t0)
            \<and> (sofar @ concat batches \<noteq> [] \<longrightarrow> (\<forall>l. 0 \<le> l \<and> l \<le> depth t0 \<longrightarrow>
                 tree t' l = Some (levelsAbove (poseidon t0) (emptyBranchLevels t0) 0
                                     (map Some (sofar @ concat batches)) (nat l))))"
proof (induction batches arbitrary: t sofar)
  case Nil
  then show ?case by simp
next
  case (Cons b bs)
  let ?H = "poseidon t0" and ?ebl = "emptyBranchLevels t0"
  have fields: "poseidon t = ?H" "emptyBranchLevels t = ?ebl" "depth t = depth t0"
    by (subst Cons.prems(1), simp)+
  have lvl0: "tree t 0 = Some (map Some sofar)"
  proof (cases "sofar = []")
    case True
    with Cons.prems(2) t0 show ?thesis by simp
  next
    case False
    with Cons.prems(3) d show ?thesis by simp
  qed
  show ?case
  proof (cases "b = []")
    case True
    then have "insertLeaves t b = Inr t" by (simp add: insertLeaves_def)
    moreover have "\<exists>t'. insertMany t bs = Inr t' \<and> t' = t0\<lparr>tree := tree t'\<rparr>
            \<and> (sofar @ concat bs = [] \<longrightarrow> t' = t0)
            \<and> (sofar @ concat bs \<noteq> [] \<longrightarrow> (\<forall>l. 0 \<le> l \<and> l \<le> depth t0 \<longrightarrow>
                 tree t' l = Some (levelsAbove ?H ?ebl 0 (map Some (sofar @ concat bs)) (nat l))))"
      using Cons.prems by (rule Cons.IH)
    ultimately show ?thesis using True by simp
  next
    case False
    let ?l0 = "map Some sofar @ map Some b"
    let ?t = "t\<lparr>tree := \<lambda>l. if l = 0 \<or> (0 < l \<and> l \<le> depth t)
                              then Some (levelsAbove (poseidon t) (emptyBranchLevels t) 0 ?l0 (nat l))
                              else tree t l\<rparr>"
    have ins: "insertLeaves t b = Inr ?t"
      using False lvl0 by (rule insertLeaves_spec)
    have same: "?t = t0\<lparr>tree := tree ?t\<rparr>"
      by (subst Cons.prems(1)) simp
    have ne: "sofar @ b \<noteq> []" using False by simp
    have "\<exists>t'. insertMany ?t bs = Inr t' \<and> t' = t0\<lparr>tree := tree t'\<rparr>
            \<and> ((sofar @ b) @ concat bs = [] \<longrightarrow> t' = t0)
            \<and> ((sofar @ b) @ concat bs \<noteq> [] \<longrightarrow> (\<forall>l. 0 \<le> l \<and> l \<le> depth t0 \<longrightarrow>
                 tree t' l = Some (levelsAbove ?H ?ebl 0 (map Some ((sofar @ b) @ concat bs)) (nat l))))"
    proof (rule Cons.IH [OF same])
      show "sofar @ b = [] \<longrightarrow> ?t = t0" using ne by blast
      show "sofar @ b \<noteq> [] \<longrightarrow> (\<forall>l. 0 \<le> l \<and> l \<le> depth t0 \<longrightarrow>
             tree ?t l = Some (levelsAbove ?H ?ebl 0 (map Some (sofar @ b)) (nat l)))"
        using fields by auto
    qed
    then show ?thesis using ins by simp
  qed
qed

lemma first_defined:
  assumes "xs \<noteq> []" and "None \<notin> set xs"
  shows "\<exists>r. nth_js xs 0 = Some r"
proof (cases xs)
  case Nil
  with assms(1) show ?thesis by simp
next
  case (Cons a rest)
  with assms(2) show ?thesis by (cases a) (auto simp add: nth_js_def)
qed

lemma fresh_tree_levels:
  assumes "1 \<le> d" and "MerkleTree_new d H e = Inr t0"
  shows "\<forall>l. 0 \<le> l \<and> l < d \<longrightarrow> tree t0 l = Some []"
    and "tree t0 d = Some [Some (emptyBranchSpec H e (nat d))]"
    and "root t0 = Inr (Some (emptyBranchSpec H e (nat d)))"
proof -
  have ebl: "calculateEmptyBranchHashes H e d = map (\<lambda>k. Some (emptyBranchSpec H e k)) [0..<nat d + 1]"
    using assms(1) by (simp add: calculateEmptyBranchHashes_spec max_def nat_add_distrib)
  have top: "nth_js (calculateEmptyBranchHashes H e d) d = Some (emptyBranchSpec H e (nat d))"
    unfolding ebl nth_js_map_upt using assms(1) by simp
  have t0: "t0 = \<lparr> depth = d, poseidon = H, emptyLeaf = e,
           emptyBranchLevels = calculateEmptyBranchHashes H e d,
           tree = (init_loop d 0 Map.empty)(d \<mapsto> [nth_js (calculateEmptyBranchHashes H e d) d]) \<rparr>"
    using assms by (simp add: MerkleTree_new_ok)
  show "\<forall>l. 0 \<le> l \<and> l < d \<longrightarrow> tree t0 l = Some []"
    by (subst t0) (simp add: init_loop_spec)
  show "tree t0 d = Some [Some (emptyBranchSpec H e (nat d))]"
    by (subst t0) (simp add: top)
  have single: "nth_js [x] 0 = x" for x :: "'a jsval"
    by (simp add: nth_js_def)
  show "root t0 = Inr (Some (emptyBranchSpec H e (nat d)))"
    by (subst t0) (simp add: root_def top single)
qed

text \<open>
  Claim C6, amended. For every tree made by constructing with a depth \<open>d \<ge> 1\<close> and
  calling \<open>insertLeaves\<close> any number of times, the root entry exists, and level \<open>l\<close> holds
  exactly \<open>\<lceil>leafCount / 2 ^ l\<rceil>\<close> entries, except that the root level holds the one empty
  root as long as no leaf has been inserted.
\<close>

theorem C6_level_sizes:
  assumes "1 \<le> d" and "MerkleTree_new d H e = Inr t0"
  shows "\<exists>t. insertMany t0 batches = Inr t
           \<and> (\<exists>r. root t = Inr (Some r))
           \<and> (\<forall>l. 0 \<le> l \<and> l \<le> d \<longrightarrow>
                  (\<exists>lvl. tree t l = Some lvl
                     \<and> length lvl = (if concat batches = [] \<and> l = d then 1
                                      else (length (concat batches) + 2 ^ nat l - 1) div 2 ^ nat l)))"
proof -
  note fresh = fresh_tree_level0 [OF assms] and levels0 = fresh_tree_levels [OF assms]
  let ?H = "poseidon t0" and ?ebl = "emptyBranchLevels t0"
  let ?all = "concat batches"
  have "\<exists>t'. insertMany t0 batches = Inr t' \<and> t' = t0\<lparr>tree := tree t'\<rparr>
            \<and> ([] @ ?all = [] \<longrightarrow> t' = t0)
            \<and> ([] @ ?all \<noteq> [] \<longrightarrow> (\<forall>l. 0 \<le> l \<and> l \<le> depth t0 \<longrightarrow>
                 tree t' l = Some (levelsAbove ?H ?ebl 0 (map Some ([] @ ?all)) (nat l))))"
    by (rule insertMany_spec) (use assms(1) fresh in simp_all)
  then obtain t where run: "insertMany t0 batches = Inr t"
    and none: "?all = [] \<longrightarrow> t = t0"
    and some: "?all \<noteq> [] \<longrightarrow> (\<forall>l. 0 \<le> l \<and> l \<le> d \<longrightarrow>
                 tree t l = Some (levelsAbove ?H ?ebl 0 (map Some ?all) (nat l)))"
      and same: "t = t0\<lparr>tree := tree t\<rparr>"
    using fresh(2) by auto
  have dt: "depth t = d" by (subst same) (simp add: fresh(2))
  have rt: "\<exists>r. root t = Inr (Some r)"
  proof (cases "?all = []")
    case True
    with none levels0(3) show ?thesis by simp
  next
    case False
    let ?top = "levelsAbove ?H ?ebl 0 (map Some ?all) (nat d)"
    from False some assms(1) have top: "tree t d = Some ?top" by simp
    have "None \<notin> set ?top"
      by (rule levelsAbove_defined) auto
    moreover have "?top \<noteq> []"
      by (rule levelsAbove_nonempty) (use False in simp)
    ultimately obtain r where "nth_js ?top 0 = Some r"
      using first_defined [of ?top] by blast
    with top dt show ?thesis by (simp add: root_def)
  qed
  have sizes: "\<exists>lvl. tree t l = Some lvl
                     \<and> length lvl = (if ?all = [] \<and> l = d then 1
                                      else (length ?all + 2 ^ nat l - 1) div 2 ^ nat l)"
    if l: "0 \<le> l \<and> l \<le> d" for l
  proof (cases "?all = []")
    case True
    with none have t: "t = t0" by simp
    show ?thesis
    proof (cases "l = d")
      case True
      with t levels0(2) \<open>?all = []\<close> show ?thesis by simp
    next
      case False
      with l levels0(1) have "tree t0 l = Some []" by simp
      moreover have "(length ?all + 2 ^ nat l - 1) div 2 ^ nat l = 0"
        unfolding \<open>?all = []\<close> by simp
      ultimately show ?thesis using t False by simp
    qed
  next
    case False
    with some l have "tree t l = Some (levelsAbove ?H ?ebl 0 (map Some ?all) (nat l))" by simp
    moreover have "length (levelsAbove ?H ?ebl 0 (map Some ?all) (nat l)) =
                     (length ?all + 2 ^ nat l - 1) div 2 ^ nat l"
      by (simp add: levelsAbove_length)
    moreover have cond: "\<not> (?all = [] \<and> l = d)" using False by blast
    ultimately show ?thesis by (simp only: cond if_False) blast
  qed
  from run rt sizes show ?thesis by blast
qed

theorem C6_witness:
  "\<exists>t. insertMany toyTree [[1, 2], [3]] = Inr t
     \<and> (\<exists>r. root t = Inr (Some r))
     \<and> (\<exists>lvl. tree t 1 = Some lvl \<and> length lvl = 2)"
proof -
  have d: "(1::int) \<le> 2" by simp
  from C6_level_sizes [OF d toyTree_new, of "[[1, 2], [3]]"]
  obtain t where t: "insertMany toyTree [[1, 2], [3]] = Inr t" "\<exists>r. root t = Inr (Some r)"
    and sizes: "\<forall>l. 0 \<le> l \<and> l \<le> 2 \<longrightarrow>
                  (\<exists>lvl. tree t l = Some lvl
                     \<and> length lvl = (if concat [[1, 2], [3::nat]] = [] \<and> l = 2 then 1
                                      else (length (concat [[1, 2], [3::nat]]) + 2 ^ nat l - 1) div 2 ^ nat l))"
    by blast
  have "(length (concat [[1, 2], [3::nat]]) + 2 ^ nat 1 - 1) div 2 ^ nat 1 = (2::nat)"
    by simp
  with sizes [rule_format, of 1] have "\<exists>lvl. tree t 1 = Some lvl \<and> length lvl = 2"
    by (simp del: concat.simps length_concat)
  with t show ?thesis by blast
qed

text \<open>
  Claim C6 as stated fails on the new tree of depth \<open>2\<close>: no leaf has been inserted, so
  the bound for level \<open>2\<close> is \<open>\<lceil>0 / 4\<rceil> = 0\<close>, and the level holds the empty root. It also
  fails at depth \<open>0\<close>, where the empty root stays in level \<open>0\<close> in front of the leaves: one
  leaf inserted, two entries.
\<close>

theorem C6_counterexample:
  "MerkleTree_new 2 toyHash 5 = Inr toyTree
   \<and> insertMany toyTree [] = Inr toyTree
   \<and> tree toyTree 2 = Some [Some 85]
   \<and> \<not> length [Some (85::nat)] \<le> (length (concat ([] :: nat list list)) + 2 ^ 2 - 1) div 2 ^ 2
   \<and> MerkleTree_new 0 toyHash 5 = Inr toyTree0
   \<and> insertMany toyTree0 [[1]] = Inr toyTree0a
   \<and> tree toyTree0a 0 = Some [Some 5, Some 1]
   \<and> \<not> length [Some (5::nat), Some 1] \<le> (length (concat [[1::nat]]) + 2 ^ 0 - 1) div 2 ^ 0"
proof -
  have "insertMany toyTree0 [[1]] = Inr toyTree0a"
    using toyTree0_insert by simp
  moreover have "tree toyTree0a 0 = Some [Some 5, Some 1]"
    by (simp add: toyTree0a_def)
  moreover have "tree toyTree 2 = Some [Some 85]"
    by (simp add: toyTree_def)
  ultimately show ?thesis
    using toyTree_new toyTree0_new by simp
qed

section \<open>Importing a zkCert\<close>

lemma find_None_iff_set: "find P xs = None \<longleftrightarrow> (\<forall>x\<in>set xs. \<not> P x)"
  by (induction xs) auto

lemma find_Some_set: "find P xs = Some x \<Longrightarrow> x \<in> set xs \<and> P x"
  by (induction xs) (auto split: if_splits)

lemma import_saved_state:
  assumes "snd (processRpcRequest_ImportZkCert state importParams dialog) = Some state'"
  shows "state' = state\<lparr>zkCerts := zkCerts state @ [zkCert importParams]\<rparr>"
    and "\<forall>c\<in>set (zkCerts state). leafHash c \<noteq> leafHash (zkCert importParams)"
  using assms
  by (auto simp add: processRpcRequest_ImportZkCert_def Let_def find_None_iff_set
      split: option.splits if_splits)

text \<open>
  Claim C10, amended. When the zkCert to import has the leaf hash of a stored zkCert,
  \<open>saveState\<close> is not called, so the persisted state stays as it is; the answer is
  \<open>ZkCertAlreadyImported\<close> if a holder with the holder commitment of the zkCert is stored,
  and the holder-missing error otherwise. Whenever the method does save a state, the leaf
  hashes of the stored zkCerts are pairwise distinct if they were before.
\<close>

theorem C10_import_deduplicates:
  "((\<exists>c\<in>set (zkCerts state). leafHash c = leafHash (zkCert importParams)) \<longrightarrow>
      snd (processRpcRequest_ImportZkCert state importParams dialog) = None
      \<and> fst (processRpcRequest_ImportZkCert state importParams dialog) =
          (if \<exists>h\<in>set (holders state). holderCommitment h = certHolderCommitment (zkCert importParams)
           then Inr ZkCertAlreadyImported else Inl HolderMissing))
   \<and> (distinct (map leafHash (zkCerts state))
        \<and> snd (processRpcRequest_ImportZkCert state importParams dialog) = Some state' \<longrightarrow>
      distinct (map leafHash (zkCerts state')) \<and> holders state' = holders state)"
proof (intro conjI impI)
  assume dup: "\<exists>c\<in>set (zkCerts state). leafHash c = leafHash (zkCert importParams)"
  then have found: "find (\<lambda>candidate. leafHash candidate = leafHash (zkCert importParams)) (zkCerts state) \<noteq> None"
    by (simp add: find_None_iff_set)
  show "snd (processRpcRequest_ImportZkCert state importParams dialog) = None"
    using found
    by (auto simp add: processRpcRequest_ImportZkCert_def Let_def split: option.splits)
  show "fst (processRpcRequest_ImportZkCert state importParams dialog) =
          (if \<exists>h\<in>set (holders state). holderCommitment h = certHolderCommitment (zkCert importParams)
           then Inr ZkCertAlreadyImported else Inl HolderMissing)"
  proof (cases "find (\<lambda>candidate. holderCommitment candidate = certHolderCommitment (zkCert importParams))
                     (holders state)")
    case None
    then have "\<not> (\<exists>h\<in>set (holders state). holderCommitment h = certHolderCommitment (zkCert importParams))"
      by (simp add: find_None_iff_set)
    with None show ?thesis
      by (simp add: processRpcRequest_ImportZkCert_def)
  next
    case (Some h)
    then have "\<exists>h\<in>set (holders state). holderCommitment h = certHolderCommitment (zkCert importParams)"
      using find_Some_set by fastforce
    with Some found show ?thesis
      by (auto simp add: processRpcRequest_ImportZkCert_def Let_def split: option.splits)
  qed
next
  assume a: "distinct (map leafHash (zkCerts state))
        \<and> snd (processRpcRequest_ImportZkCert state importParams dialog) = Some state'"
  then have saved: "snd (processRpcRequest_ImportZkCert state importParams dialog) = Some state'"
    by simp
  note s = import_saved_state [OF saved]
  from s(2) have "leafHash (zkCert importParams) \<notin> set (map leafHash (zkCerts state))"
    by auto
  with a show "distinct (map leafHash (zkCerts state'))"
    by (simp add: s(1))
  show "holders state' = holders state"
    by (simp add: s(1))
qed

theorem C10_witness:
  "processRpcRequest_ImportZkCert \<lparr> holders = [holderA], zkCerts = [certA] \<rparr>
      \<lparr> zkCert = certA, listZkCerts = Some True \<rparr> (Some True)
     = (Inr ZkCertAlreadyImported, None)
   \<and> processRpcRequest_ImportZkCert \<lparr> holders = [holderA], zkCerts = [certA] \<rparr>
      \<lparr> zkCert = certA\<lparr>leafHash := ''43''\<rparr>, listZkCerts = None \<rparr> (Some True)
     = (Inr ZkCertImported,
        Some \<lparr> holders = [holderA], zkCerts = [certA, certA\<lparr>leafHash := ''43''\<rparr>] \<rparr>)
   \<and> distinct (map leafHash [certA, certA\<lparr>leafHash := ''43''\<rparr>])"
proof -
  let ?st = "\<lparr> holders = [holderA], zkCerts = [certA] \<rparr>"
  let ?p = "\<lparr> zkCert = certA, listZkCerts = Some True \<rparr>"
  let ?q = "\<lparr> zkCert = certA\<lparr>leafHash := ''43''\<rparr>, listZkCerts = None \<rparr>"
  let ?st' = "\<lparr> holders = [holderA], zkCerts = [certA, certA\<lparr>leafHash := ''43''\<rparr>] \<rparr>"
  have dup: "\<exists>c\<in>set (zkCerts ?st). leafHash c = leafHash (zkCert ?p)" by simp
  have holder: "\<exists>h\<in>set (holders ?st). holderCommitment h = certHolderCommitment (zkCert ?p)"
    by (simp add: holderA_def certA_def)
  from C10_import_deduplicates [of ?st ?p "Some True"] dup holder
  have "snd (processRpcRequest_ImportZkCert ?st ?p (Some True)) = None"
    and "fst (processRpcRequest_ImportZkCert ?st ?p (Some True)) = Inr ZkCertAlreadyImported"
    by auto
  then have first: "processRpcRequest_ImportZkCert ?st ?p (Some True) = (Inr ZkCertAlreadyImported, None)"
    by (simp add: prod_eq_iff)
  have second: "processRpcRequest_ImportZkCert ?st ?q (Some True) = (Inr ZkCertImported, Some ?st')"
    by (simp add: processRpcRequest_ImportZkCert_def holderA_def certA_def)
  have "distinct (map leafHash (zkCerts ?st))" by simp
  moreover from second have "snd (processRpcRequest_ImportZkCert ?st ?q (Some True)) = Some ?st'"
    by simp
  ultimately have "distinct (map leafHash (zkCerts ?st'))"
    using C10_import_deduplicates [of ?st ?q "Some True" ?st'] by blast
  then have "distinct (map leafHash [certA, certA\<lparr>leafHash := ''43''\<rparr>])" by simp
  with first second show ?thesis by blast
qed

text \<open>
  Claim C10 as stated fails when no stored holder has the holder commitment of the zkCert:
  the check for the holder comes first, and the request ends with the holder-missing
  error, not with \<open>ZkCertAlreadyImported\<close>, although the leaf hash is stored.
\<close>

theorem C10_counterexample:
  "leafHash certB = leafHash certA
   \<and> processRpcRequest_ImportZkCert \<lparr> holders = [holderA], zkCerts = [certA] \<rparr>
        \<lparr> zkCert = certB, listZkCerts = None \<rparr> (Some True)
       = (Inl HolderMissing, None)"
  by (simp add: processRpcRequest_ImportZkCert_def certA_def certB_def holderA_def)

section \<open>The time check\<close>

lemma timeCheck_iff:
  "timeCheck T publicTime = Inr () \<longleftrightarrow> \<bar>int T - int publicTime\<bar> \<le> 30 * 60"
  by (auto simp add: timeCheck_def timeDifferenceTolerance_def Let_def)

lemma timeCheck_error:
  "timeCheck T publicTime \<noteq> Inr () \<Longrightarrow> timeCheck T publicTime = Inl TimeOutOfBounds"
  by (simp add: timeCheck_def Let_def split: if_splits)

lemma timeCheck_31:
  "timeCheck (publicTime + 31 * 60) publicTime = Inl TimeOutOfBounds"
  "timeCheck publicTime (publicTime + 31 * 60) = Inl TimeOutOfBounds"
  by (simp_all add: timeCheck_def timeDifferenceTolerance_def Let_def)

lemma timeCheck_29:
  "timeCheck (publicTime + 29 * 60) publicTime = Inr ()"
  "timeCheck publicTime (publicTime + 29 * 60) = Inr ()"
  by (simp_all add: timeCheck_def timeDifferenceTolerance_def Let_def)

text \<open>
  Claim C9. The time check passes exactly when the chain time and the public time of the
  proof differ by at most 30 minutes, and signals \<open>TimeOutOfBounds\<close> otherwise; a proof 31
  minutes off is rejected and one 29 minutes off is accepted, on either side.
\<close>

theorem C9_time_check:
  "(timeCheck T publicTime = Inr () \<longleftrightarrow> \<bar>int T - int publicTime\<bar> \<le> 30 * 60)
   \<and> (timeCheck T publicTime \<noteq> Inr () \<longrightarrow> timeCheck T publicTime = Inl TimeOutOfBounds)
   \<and> timeCheck (publicTime + 31 * 60) publicTime = Inl TimeOutOfBounds
   \<and> timeCheck publicTime (publicTime + 31 * 60) = Inl TimeOutOfBounds
   \<and> timeCheck (publicTime + 29 * 60) publicTime = Inr ()
   \<and> timeCheck publicTime (publicTime + 29 * 60) = Inr ()"
  using timeCheck_iff [of T publicTime] timeCheck_error [of T publicTime]
    timeCheck_31 [of publicTime] timeCheck_29 [of publicTime]
  by blast

theorem C9_witness:
  "timeCheck 1700001860 1700000000 = Inl TimeOutOfBounds
   \<and> timeCheck 1700001740 1700000000 = Inr ()
   \<and> timeCheck 1700001800 1700000000 = Inr ()
   \<and> timeCheck (1700000000 + 200 + 30 * 60) 1700000000 = Inl TimeOutOfBounds"
proof -
  have far: "\<not> \<bar>int 1700001860 - int 1700000000\<bar> \<le> 30 * 60" by simp
  have near: "\<bar>int 1700001740 - int 1700000000\<bar> \<le> 30 * 60" by simp
  from far C9_time_check [of 1700001860 1700000000]
  have a: "timeCheck 1700001860 1700000000 = Inl TimeOutOfBounds" by blast
  from near C9_time_check [of 1700001740 1700000000]
  have b: "timeCheck 1700001740 1700000000 = Inr ()" by blast
  have c: "timeCheck 1700001800 1700000000 = Inr ()"
    by (simp add: timeCheck_def timeDifferenceTolerance_def)
  have d: "timeCheck (1700000000 + 200 + 30 * 60) 1700000000 = Inl TimeOutOfBounds"
    by (simp add: timeCheck_def timeDifferenceTolerance_def)
  from a b c d show ?thesis by blast
qed

section \<open>Lagrange interpolation and the shares of a secret\<close>

lemma evalPoly_sum: "evalPoly cs z = (\<Sum>i<length cs. cs ! i * z ^ i)"
proof (induction cs)
  case Nil
  show ?case by simp
next
  case (Cons c cs)
  have "(\<Sum>i<length (c # cs). (c # cs) ! i * z ^ i) = c + (\<Sum>i<length cs. cs ! i * z ^ Suc i)"
    unfolding length_Cons by (subst sum.lessThan_Suc_shift) simp
  also have "(\<Sum>i<length cs. cs ! i * z ^ Suc i) = z * (\<Sum>i<length cs. cs ! i * z ^ i)"
    by (simp add: sum_distrib_left mult_ac)
  finally show ?case using Cons by simp
qed

lemma polyfun_const:
  "\<exists>c. \<forall>z. (a::'a::field) = (\<Sum>i\<le>n. c i * z ^ i)"
proof (intro exI [of _ "\<lambda>i. if i = 0 then a else 0"] allI)
  fix z :: 'a
  have "(\<Sum>i\<le>n. (if i = 0 then a else 0) * z ^ i) = (\<Sum>i\<le>n. if i = 0 then a else 0)"
    by (rule sum.cong) auto
  also have "\<dots> = a" by simp
  finally show "a = (\<Sum>i\<le>n. (if i = 0 then a else 0) * z ^ i)" by simp
qed

lemma polyfun_add:
  assumes "\<exists>c. \<forall>z. f z = (\<Sum>i\<le>n. c i * z ^ i)" and "\<exists>c. \<forall>z. g z = (\<Sum>i\<le>n. c i * z ^ i)"
  shows "\<exists>c. \<forall>z. f z + g z = (\<Sum>i\<le>n. c i * z ^ i :: 'a::field)"
proof -
  from assms obtain c d where c: "\<forall>z. f z = (\<Sum>i\<le>n. c i * z ^ i)" and d: "\<forall>z. g z = (\<Sum>i\<le>n. d i * z ^ i)"
    by blast
  show ?thesis
    by (intro exI [of _ "\<lambda>i. c i + d i"]) (simp add: c d sum.distrib distrib_right)
qed

lemma polyfun_scale:
  assumes "\<exists>c. \<forall>z. f z = (\<Sum>i\<le>n. c i * z ^ i)"
  shows "\<exists>c. \<forall>z. a * f z = (\<Sum>i\<le>n. c i * z ^ i :: 'a::field)"
proof -
  from assms obtain c where c: "\<forall>z. f z = (\<Sum>i\<le>n. c i * z ^ i)" by blast
  show ?thesis
    by (intro exI [of _ "\<lambda>i. a * c i"]) (simp add: c sum_distrib_left mult.assoc)
qed

lemma polyfun_times_linear:
  assumes "\<exists>c. \<forall>z. f z = (\<Sum>i\<le>n. c i * z ^ i)"
  shows "\<exists>c. \<forall>z. (z - a) * f z = (\<Sum>i\<le>Suc n. c i * z ^ i :: 'a::field)"
proof -
  from assms obtain c where c: "\<forall>z. f z = (\<Sum>i\<le>n. c i * z ^ i)" by blast
  let ?up = "\<lambda>i. if i = 0 then 0 else c (i - 1)"
  let ?lo = "\<lambda>i. if i \<le> n then - a * c i else 0"
  have up: "(\<Sum>i\<le>Suc n. ?up i * z ^ i) = z * f z" for z
  proof -
    have "(\<Sum>i\<le>Suc n. ?up i * z ^ i) = (\<Sum>i\<le>n. c i * z ^ Suc i)"
      by (subst sum.atMost_Suc_shift) simp
    also have "\<dots> = z * (\<Sum>i\<le>n. c i * z ^ i)"
      by (simp add: sum_distrib_left mult_ac)
    finally show ?thesis by (simp add: c)
  qed
  have lo: "(\<Sum>i\<le>Suc n. ?lo i * z ^ i) = - a * f z" for z
  proof -
    have "(\<Sum>i\<le>Suc n. ?lo i * z ^ i) = (\<Sum>i\<le>n. ?lo i * z ^ i)"
      by simp
    also have "\<dots> = (\<Sum>i\<le>n. - a * (c i * z ^ i))"
      by (rule sum.cong) (simp_all add: mult.assoc)
    also have "\<dots> = - a * (\<Sum>i\<le>n. c i * z ^ i)"
      by (simp only: sum_distrib_left)
    finally show ?thesis by (simp add: c)
  qed
  have "(z - a) * f z = (\<Sum>i\<le>Suc n. (?up i + ?lo i) * z ^ i)" for z
  proof -
    have "(\<Sum>i\<le>Suc n. (?up i + ?lo i) * z ^ i) = (\<Sum>i\<le>Suc n. ?up i * z ^ i) + (\<Sum>i\<le>Suc n. ?lo i * z ^ i)"
      by (simp only: distrib_right sum.distrib)
    also have "\<dots> = z * f z + - a * f z" by (simp only: up lo)
    finally show ?thesis by (simp add: algebra_simps)
  qed
  then have "\<forall>z. (z - a) * f z = (\<Sum>i\<le>Suc n. (?up i + ?lo i) * z ^ i)" by simp
  then show ?thesis by (rule exI [of _ "\<lambda>i. ?up i + ?lo i"])
qed

lemma polyfun_rootbound_list:
  fixes c :: "nat \<Rightarrow> 'a::field"
  shows "distinct xs \<Longrightarrow> length xs = Suc n \<Longrightarrow> \<forall>x\<in>set xs. (\<Sum>i\<le>n. c i * x ^ i) = 0 \<Longrightarrow>
         (\<Sum>i\<le>n. c i * z ^ i) = 0"
proof (induction n arbitrary: c xs z)
  case 0
  then obtain x where "xs = [x]" by (cases xs) auto
  with "0.prems" show ?case by simp
next
  case (Suc n)
  then obtain a rest where xs: "xs = a # rest" by (cases xs) auto
  with Suc.prems have a: "(\<Sum>i\<le>Suc n. c i * a ^ i) = 0" by simp
  with polyfun_linear_factor [of c "Suc n" a]
  obtain b where b: "\<And>w. (\<Sum>i\<le>Suc n. c i * w ^ i) = (w - a) * (\<Sum>i<Suc n. b i * w ^ i)"
    by auto
  have "\<forall>x\<in>set rest. (\<Sum>i\<le>n. b i * x ^ i) = 0"
  proof
    fix x assume x: "x \<in> set rest"
    with Suc.prems xs have "x \<noteq> a" and "(\<Sum>i\<le>Suc n. c i * x ^ i) = 0" by auto
    with b [of x] show "(\<Sum>i\<le>n. b i * x ^ i) = 0"
      by (simp add: lessThan_Suc_atMost)
  qed
  moreover have "distinct rest" "length rest = Suc n" using Suc.prems xs by auto
  ultimately have "(\<Sum>i\<le>n. b i * z ^ i) = 0" by (rule Suc.IH [rotated 2])
  with b [of z] show ?case by (simp add: lessThan_Suc_atMost)
qed

lemma polyfun_prod_linear:
  "\<exists>c. \<forall>z. prod_list (map (\<lambda>x. (z - x) / (a - x)) ps) = (\<Sum>i\<le>length ps. c i * z ^ i :: 'a::field)"
proof (induction ps)
  case Nil
  show ?case using polyfun_const [of "1::'a" 0] by simp
next
  case (Cons p ps)
  have "\<exists>c. \<forall>z. (z - p) * prod_list (map (\<lambda>x. (z - x) / (a - x)) ps) = (\<Sum>i\<le>Suc (length ps). c i * z ^ i)"
    using Cons by (rule polyfun_times_linear)
  then have "\<exists>c. \<forall>z. (1 / (a - p)) * ((z - p) * prod_list (map (\<lambda>x. (z - x) / (a - x)) ps))
                 = (\<Sum>i\<le>Suc (length ps). c i * z ^ i)"
    by (rule polyfun_scale)
  then show ?case by simp
qed

lemma length_filter_neq:
  "distinct xs \<Longrightarrow> a \<in> set xs \<Longrightarrow> length (filter (\<lambda>x. x \<noteq> a) xs) = length xs - 1"
proof (induction xs)
  case Nil
  then show ?case by simp
next
  case (Cons x xs)
  show ?case
  proof (cases "x = a")
    case True
    with Cons.prems have "a \<notin> set xs" by simp
    then have "filter (\<lambda>x. x \<noteq> a) xs = xs" by (auto simp add: filter_id_conv)
    with True show ?thesis by simp
  next
    case False
    with Cons.prems have "a \<in> set xs" "distinct xs" by auto
    then have "length (filter (\<lambda>x. x \<noteq> a) xs) = length xs - 1" and "xs \<noteq> []"
      using Cons.IH by auto
    with False show ?thesis by (cases xs) auto
  qed
qed

lemma polyfun_lagrangeBasis:
  assumes "distinct xs" and "a \<in> set xs" and "length xs = Suc n"
  shows "\<exists>c. \<forall>z. lagrangeBasis xs a z = (\<Sum>i\<le>n. c i * z ^ i :: 'a::field)"
proof -
  have "length (filter (\<lambda>x. x \<noteq> a) xs) = n"
    using assms by (simp add: length_filter_neq)
  with polyfun_prod_linear [of a "filter (\<lambda>x. x \<noteq> a) xs"] show ?thesis
    by (simp add: lagrangeBasis_def)
qed

lemma polyfun_sum_list:
  "(\<forall>a\<in>set as. \<exists>c. \<forall>z. g a z = (\<Sum>i\<le>n. c i * z ^ i)) \<Longrightarrow>
   \<exists>c. \<forall>z. sum_list (map (\<lambda>a. y a * g a z) as) = (\<Sum>i\<le>n. c i * z ^ i :: 'a::field)"
proof (induction as)
  case Nil
  show ?case using polyfun_const [of "0::'a" n] by simp
next
  case (Cons a as)
  have "\<exists>c. \<forall>z. y a * g a z = (\<Sum>i\<le>n. c i * z ^ i)"
    using Cons.prems by (intro polyfun_scale) simp
  moreover have "\<exists>c. \<forall>z. sum_list (map (\<lambda>a. y a * g a z) as) = (\<Sum>i\<le>n. c i * z ^ i)"
    using Cons by simp
  ultimately have "\<exists>c. \<forall>z. y a * g a z + sum_list (map (\<lambda>a. y a * g a z) as) = (\<Sum>i\<le>n. c i * z ^ i)"
    by (rule polyfun_add)
  then show ?case by simp
qed

lemma prod_list_all_one: "\<forall>x\<in>set ps. g x = 1 \<Longrightarrow> prod_list (map g ps) = (1::'a::field)"
  by (induction ps) simp_all

lemma prod_list_has_zero: "x \<in> set ps \<Longrightarrow> g x = 0 \<Longrightarrow> prod_list (map g ps) = (0::'a::field)"
  by (induction ps) auto

lemma lagrangeBasis_at_node:
  assumes "b \<in> set xs"
  shows "lagrangeBasis xs a b = (if b = a then 1 else 0 :: 'a::field)"
proof (cases "b = a")
  case True
  have "\<forall>x\<in>set (filter (\<lambda>x. x \<noteq> a) xs). (a - x) / (a - x) = 1" by simp
  then have "prod_list (map (\<lambda>x. (a - x) / (a - x)) (filter (\<lambda>x. x \<noteq> a) xs)) = 1"
    by (rule prod_list_all_one)
  with True show ?thesis by (simp add: lagrangeBasis_def)
next
  case False
  with assms have "b \<in> set (filter (\<lambda>x. x \<noteq> a) xs)" by simp
  moreover have "(b - b) / (a - b) = 0" by simp
  ultimately have "prod_list (map (\<lambda>x. (b - x) / (a - x)) (filter (\<lambda>x. x \<noteq> a) xs)) = 0"
    by (rule prod_list_has_zero)
  with False show ?thesis by (simp add: lagrangeBasis_def)
qed

lemma sum_list_single:
  "distinct xs \<Longrightarrow> b \<in> set xs \<Longrightarrow>
   sum_list (map (\<lambda>a. y a * (if b = a then 1 else 0)) xs) = (y b :: 'a::field)"
proof (induction xs)
  case Nil
  then show ?case by simp
next
  case (Cons x xs)
  show ?case
  proof (cases "b = x")
    case True
    with Cons.prems have "b \<notin> set xs" by simp
    then have "sum_list (map (\<lambda>a. y a * (if b = a then 1 else 0)) xs) = 0"
      by (induction xs) auto
    with True show ?thesis by simp
  next
    case False
    with Cons show ?thesis by simp
  qed
qed

lemma lagrange_sum_at_node:
  assumes "distinct xs" and "b \<in> set xs"
  shows "sum_list (map (\<lambda>a. y a * lagrangeBasis xs a b) xs) = (y b :: 'a::field)"
proof -
  have "map (\<lambda>a. y a * lagrangeBasis xs a b) xs = map (\<lambda>a. y a * (if b = a then 1 else 0)) xs"
    using assms(2) by (simp add: lagrangeBasis_at_node)
  then show ?thesis using assms by (simp only: sum_list_single)
qed

lemma lagrange_interpolation:
  fixes cs :: "'a::field list"
  assumes "distinct xs" and "length xs = length cs" and "cs \<noteq> []"
  shows "sum_list (map (\<lambda>a. evalPoly cs a * lagrangeBasis xs a z) xs) = evalPoly cs z"
proof -
  from assms obtain n where n: "length cs = Suc n" "length xs = Suc n"
    by (cases cs) auto
  let ?L = "\<lambda>z. sum_list (map (\<lambda>a. evalPoly cs a * lagrangeBasis xs a z) xs)"
  have "\<exists>c. \<forall>z. evalPoly cs z = (\<Sum>i\<le>n. c i * z ^ i)"
    by (intro exI [of _ "\<lambda>i. cs ! i"]) (simp add: evalPoly_sum n lessThan_Suc_atMost)
  moreover have "\<exists>c. \<forall>z. ?L z = (\<Sum>i\<le>n. c i * z ^ i)"
    by (rule polyfun_sum_list) (use assms(1) n(2) in \<open>auto intro: polyfun_lagrangeBasis\<close>)
  then have "\<exists>c. \<forall>z. (- 1) * ?L z = (\<Sum>i\<le>n. c i * z ^ i)"
    by (rule polyfun_scale)
  ultimately have "\<exists>c. \<forall>z. evalPoly cs z + (- 1) * ?L z = (\<Sum>i\<le>n. c i * z ^ i)"
    by (rule polyfun_add)
  then obtain c where c: "\<forall>z. evalPoly cs z + (- 1) * ?L z = (\<Sum>i\<le>n. c i * z ^ i)"
    by blast
  have "\<forall>x\<in>set xs. (\<Sum>i\<le>n. c i * x ^ i) = 0"
  proof
    fix x assume "x \<in> set xs"
    with assms(1) have "?L x = evalPoly cs x" by (rule lagrange_sum_at_node)
    with c show "(\<Sum>i\<le>n. c i * x ^ i) = 0" by (simp flip: c)
  qed
  with assms(1) n(2) have "(\<Sum>i\<le>n. c i * z ^ i) = 0"
    by (rule polyfun_rootbound_list)
  with c have "evalPoly cs z + (- 1) * ?L z = 0" by simp
  then show ?thesis by simp
qed

lemma lagrangeBasisAtZero_eq:
  assumes "distinct xs" and "i < length xs"
  shows "lagrangeBasisAtZero xs i = lagrangeBasis xs (xs ! i) 0"
proof -
  have "filter (\<lambda>x. x \<noteq> xs ! i) xs = filter (\<lambda>x. x \<noteq> xs ! i) (map (nth xs) [0..<length xs])"
    by (simp only: map_nth)
  also have "\<dots> = map (nth xs) (filter (\<lambda>j. xs ! j \<noteq> xs ! i) [0..<length xs])"
    by (simp add: filter_map comp_def)
  also have "filter (\<lambda>j. xs ! j \<noteq> xs ! i) [0..<length xs] = filter (\<lambda>j. j \<noteq> i) [0..<length xs]"
    using assms by (intro filter_cong) (auto simp add: nth_eq_iff_index_eq)
  finally show ?thesis
    by (simp add: lagrangeBasisAtZero_def lagrangeBasis_def comp_def)
qed

lemma reconstructSecret_shares:
  fixes cs :: "'a::field list"
  assumes "distinct (map of_nat sel :: 'a list)" and "length sel = length cs" and "cs \<noteq> []"
  shows "reconstructSecret k (map (shamirShare cs) sel) = Inr (evalPoly cs 0)"
proof -
  let ?xs = "map of_nat sel :: 'a list"
  let ?shares = "map (shamirShare cs) sel"
  let ?h = "\<lambda>a. evalPoly cs a * lagrangeBasis ?xs a 0"
  have xs: "map (\<lambda>s. of_nat (fst s)) ?shares = ?xs"
    by (simp add: shamirShare_def comp_def)
  have ys: "map snd ?shares = map (evalPoly cs) ?xs"
    by (simp add: shamirShare_def comp_def)
  have "map (\<lambda>i. map (evalPoly cs) ?xs ! i * lagrangeBasisAtZero ?xs i) [0..<length ?xs]
          = map (\<lambda>i. ?h (?xs ! i)) [0..<length ?xs]"
    using assms(1) by (intro map_cong) (simp_all add: lagrangeBasisAtZero_eq)
  also have "\<dots> = map ?h (map (nth ?xs) [0..<length ?xs])"
    by (simp add: comp_def)
  also have "\<dots> = map ?h ?xs"
    by (simp only: map_nth)
  finally have "sum_list (map (\<lambda>i. map (evalPoly cs) ?xs ! i * lagrangeBasisAtZero ?xs i) [0..<length ?xs])
                  = sum_list (map ?h ?xs)"
    by simp
  also have "\<dots> = evalPoly cs 0"
    using assms by (intro lagrange_interpolation) simp_all
  finally have "sum_list (map (\<lambda>i. map (evalPoly cs) ?xs ! i * lagrangeBasisAtZero ?xs i) [0..<length sel])
                  = evalPoly cs 0"
    by simp
  then show ?thesis
    unfolding reconstructSecret_def Let_def xs ys using assms(1) by simp
qed

text \<open>
  Claim C8. For a secret shared with threshold \<open>k\<close>, reconstruction from any \<open>k\<close> of the
  shares, with indices that differ in the field, returns the secret: the Lagrange
  interpolation at \<open>0\<close> of the polynomial behind the shares. Two selections, such as the
  shares \<open>1, 2, 3\<close> and the shares \<open>3, 4, 5\<close> for \<open>k = 3\<close>, therefore give the same result.
\<close>

theorem C8_shamir_subset_independent:
  fixes cs :: "'a::field list"
  assumes "0 < k" and "length cs = k"
    and "length sel = k" and "distinct (map of_nat sel :: 'a list)"
    and "length sel' = k" and "distinct (map of_nat sel' :: 'a list)"
  shows "reconstructSecret k (map (shamirShare cs) sel) = Inr (hd cs)
       \<and> reconstructSecret k (map (shamirShare cs) sel') = Inr (hd cs)"
proof -
  from assms(1,2) have ne: "cs \<noteq> []" by auto
  then have secret: "evalPoly cs 0 = hd cs" by (cases cs) simp_all
  have "reconstructSecret k (map (shamirShare cs) sel) = Inr (evalPoly cs 0)"
    using assms(4) _ ne by (rule reconstructSecret_shares) (simp add: assms)
  moreover have "reconstructSecret k (map (shamirShare cs) sel') = Inr (evalPoly cs 0)"
    using assms(6) _ ne by (rule reconstructSecret_shares) (simp add: assms)
  ultimately show ?thesis by (simp add: secret)
qed

lemma shares_example:
  "map (shamirShare [468146, 7, 11 :: rat]) [1, 2, 3, 4, 5]
     = [(1, 468164), (2, 468204), (3, 468266), (4, 468350), (5, 468456)]"
  by (simp add: shamirShare_def)

lemma reconstruct_example:
  "reconstructSecret 3 [(3, 468266), (4, 468350), (5, 468456 :: rat)] = Inr 468146"
  by (simp add: reconstructSecret_def lagrangeBasisAtZero_def Let_def upt_rec)

theorem C8_witness:
  "reconstructSecret 3 (map (shamirShare [468146, 7, 11 :: rat]) [1, 2, 3]) = Inr 468146
   \<and> reconstructSecret 3 (map (shamirShare [468146, 7, 11 :: rat]) [3, 4, 5]) = Inr 468146"
proof -
  have k: "(0::nat) < 3" and len: "length [468146, 7, 11 :: rat] = 3" by simp_all
  have s1: "length [1, 2, 3 :: nat] = 3" and d1: "distinct (map of_nat [1, 2, 3 :: nat] :: rat list)"
    by simp_all
  have s2: "length [3, 4, 5 :: nat] = 3" and d2: "distinct (map of_nat [3, 4, 5 :: nat] :: rat list)"
    by simp_all
  from C8_shamir_subset_independent [OF k len s1 d1 s2 d2] show ?thesis by simp
qed

end
